theory Spec2Isabelle
  imports Complex_Main "HOL-Library.Sublist" "HOL-Library.Product_Lexorder"
begin

section \<open>Common Python and pandas notions\<close>

text \<open>
  Exceptions are values: a call that may raise returns \<open>exn + 'a\<close>, with \<open>Inl\<close> the
  exception. A floating-point cell is modelled as an exact real number, \<open>None\<close> standing for
  a missing value (NaN).
\<close>

datatype exn = KeyError | ValueError | TypeError | AttributeError | IndexError | FileNotFoundError | OtherReadError | ServiceError

type_synonym cell = "real option"

text \<open>UTC timestamps of a \<open>DatetimeIndex\<close>, compared chronologically.\<close>

record stamp =
  year :: int
  month :: nat
  day :: nat
  hour :: nat
  minute :: nat
  second :: nat

definition stamp_key :: "stamp \<Rightarrow> int \<times> nat \<times> nat \<times> nat \<times> nat \<times> nat" where
  "stamp_key t = (year t, month t, day t, hour t, minute t, second t)"

fun key_le :: "int \<times> nat \<times> nat \<times> nat \<times> nat \<times> nat \<Rightarrow> int \<times> nat \<times> nat \<times> nat \<times> nat \<times> nat \<Rightarrow> bool" where
  "key_le (y, mo, d, h, mi, s) (y', mo', d', h', mi', s') =
     (y < y' \<or> (y = y' \<and> (mo < mo' \<or> (mo = mo' \<and> (d < d' \<or> (d = d' \<and>
        (h < h' \<or> (h = h' \<and> (mi < mi' \<or> (mi = mi' \<and> s \<le> s'))))))))))"

definition stamp_le :: "stamp \<Rightarrow> stamp \<Rightarrow> bool" where
  "stamp_le a b = key_le (stamp_key a) (stamp_key b)"

section \<open>spot_module.py: the price cache\<close>

text \<open>
  The cached price table has one \<open>value\<close> column over a timestamp index: a list of rows in
  file order. The cache file is \<open>None\<close> when \<open>os.path.exists(filepath)\<close> is false.
\<close>

type_synonym prices = "(stamp \<times> real) list"

text \<open>
  A request to the price service. The source always asks for whole years:
  \<open>start = f"{y1}-01-01T00:00:00.000Z"\<close> and \<open>end = f"{y2}-12-31T23:00:00Z"\<close>.
\<close>

record request =
  from_year :: int
  to_year :: int

text \<open>
  What lies outside the repository: the clock, the HTTP service (the flattened
  \<open>{date, value}\<close> entries of the JSON response, or the exception of \<open>requests\<close>), and
  pandas' \<open>infer_freq\<close> and \<open>resample('1h').mean()\<close>.
\<close>

record outside =
  now_year :: int
  service :: "request \<Rightarrow> exn + prices"
  infer_freq :: "stamp list \<Rightarrow> exn + string option"
  resample_hour_mean :: "prices \<Rightarrow> prices"

text \<open>The value a function hands back: a DataFrame, or the class object \<open>pd.DataFrame\<close>
  itself where the source writes \<open>return pd.DataFrame\<close> without calling it.\<close>

datatype 'a returned = Frame 'a | DataFrameClass

record config =
  analysis_length :: int
  vat_perc :: real
  transfer_fee_perc :: real

text \<open>\<open>__init__\<close>: the analysis length is capped at 13.\<close>

definition init_analysis_length :: "int \<Rightarrow> int" where
  "init_analysis_length n = (if n > 13 then 13 else n)"

definition additional_fee :: "config \<Rightarrow> real" where
  "additional_fee c = 1 + vat_perc c + transfer_fee_perc c"

text \<open>\<open>AuxiliaryFunc.resample_quarter_to_hour\<close> on a price table: any exception inside is
  caught and the class object is returned.\<close>

definition resample_quarter_to_hour :: "outside \<Rightarrow> prices \<Rightarrow> prices returned" where
  "resample_quarter_to_hour w df =
     (case infer_freq w (map fst df) of
        Inl e \<Rightarrow> DataFrameClass
      | Inr f \<Rightarrow> if f = Some ''15min'' then Frame (resample_hour_mean w df) else Frame df)"

text \<open>\<open>from_api_to_dataframe\<close>: one request to the service; values are scaled by 0.1. An
  empty response has no \<open>date\<close> column, so \<open>dataframe['date']\<close> raises.\<close>

definition from_api_to_dataframe :: "outside \<Rightarrow> request \<Rightarrow> exn + prices returned" where
  "from_api_to_dataframe w r =
     (case service w r of
        Inl e \<Rightarrow> Inl e
      | Inr entries \<Rightarrow>
          let date_price_list = map (\<lambda>(d, v). (d, v * (1 / 10))) entries
          in if date_price_list = [] then Inl KeyError
             else Inr (resample_quarter_to_hour w date_price_list))"

text \<open>\<open>index.year.max()\<close> and \<open>index.year.min()\<close>: NaN (here \<open>None\<close>) on an empty index.\<close>

definition year_max :: "prices \<Rightarrow> int option" where
  "year_max df = (if df = [] then None else Some (Max (set (map (year \<circ> fst) df))))"

definition year_min :: "prices \<Rightarrow> int option" where
  "year_min df = (if df = [] then None else Some (Min (set (map (year \<circ> fst) df))))"

text \<open>The state threaded through a call: the cache file and the requests issued so far.\<close>

record cache_state =
  cache_file :: "prices option"
  fetched :: "request list"

definition end_year :: "outside \<Rightarrow> int" where
  "end_year w = now_year w - 1"

definition start_year :: "outside \<Rightarrow> config \<Rightarrow> int" where
  "start_year w c = end_year w - (analysis_length c - 1)"

text \<open>\<open>update_cache\<close>: the \<open>if\<close> tests for years missing after the cached maximum, the
  \<open>elif\<close> for years missing before the cached minimum. Appending writes the fetched rows
  after the rows of the file; the other branch rewrites the file as fetched rows followed by
  the cached rows. Either way the file is read back. On an empty index both year bounds are
  NaN, both comparisons are false and the frame is returned as it is. A class object in
  place of the fetched frame makes \<open>to_csv\<close> or \<open>pd.concat\<close> raise.\<close>

definition update_cache :: "outside \<Rightarrow> config \<Rightarrow> prices \<Rightarrow> cache_state \<Rightarrow> (exn + prices) \<times> cache_state" where
  "update_cache w c dataframe s =
     (case (year_max dataframe, year_min dataframe) of
        (Some mx, Some mn) \<Rightarrow>
          if mx < end_year w then
            (let r = \<lparr>from_year = mx + 1, to_year = end_year w\<rparr>;
                 s1 = s\<lparr>fetched := fetched s @ [r]\<rparr>
             in case from_api_to_dataframe w r of
                  Inl e \<Rightarrow> (Inl e, s1)
                | Inr DataFrameClass \<Rightarrow> (Inl AttributeError, s1)
                | Inr (Frame new_df) \<Rightarrow>
                    (let file' = (case cache_file s1 of None \<Rightarrow> new_df | Some old \<Rightarrow> old @ new_df)
                     in (Inr file', s1\<lparr>cache_file := Some file'\<rparr>)))
          else if mn > start_year w c then
            (let r = \<lparr>from_year = start_year w c, to_year = mn - 1\<rparr>;
                 s1 = s\<lparr>fetched := fetched s @ [r]\<rparr>
             in case from_api_to_dataframe w r of
                  Inl e \<Rightarrow> (Inl e, s1)
                | Inr DataFrameClass \<Rightarrow> (Inl TypeError, s1)
                | Inr (Frame new_df) \<Rightarrow>
                    (let combined_df = new_df @ dataframe
                     in (Inr combined_df, s1\<lparr>cache_file := Some combined_df\<rparr>)))
          else (Inr dataframe, s)
      | _ \<Rightarrow> (Inr dataframe, s))"

text \<open>The label slice \<open>dataframe[start:end]\<close>, both ends included.\<close>

definition window_slice :: "int \<Rightarrow> int \<Rightarrow> prices \<Rightarrow> prices" where
  "window_slice y1 y2 df =
     filter (\<lambda>(t, v).
        stamp_le \<lparr>year = y1, month = 1, day = 1, hour = 0, minute = 0, second = 0\<rparr> t \<and>
        stamp_le t \<lparr>year = y2, month = 12, day = 31, hour = 23, minute = 0, second = 0\<rparr>) df"

text \<open>The first year is removed when fewer than 12 of its months occur.\<close>

definition drop_partial_first_year :: "prices \<Rightarrow> prices" where
  "drop_partial_first_year df =
     (let first_year = year_min df;
          months_in_first_year = remdups (map (month \<circ> fst) (filter (\<lambda>(t, v). Some (year t) = first_year) df))
      in if length months_in_first_year \<noteq> 12
         then filter (\<lambda>(t, v). Some (year t) \<noteq> year_min df) df
         else df)"

text \<open>\<open>spot_get_price\<close>. Every exception is caught and the class object is returned; what
  was written to the file before the exception stays written.\<close>

definition spot_get_price :: "outside \<Rightarrow> config \<Rightarrow> cache_state \<Rightarrow> prices returned \<times> cache_state" where
  "spot_get_price w c s =
     (case cache_file s of
        Some cached \<Rightarrow>
          (case update_cache w c cached s of
             (Inl e, s') \<Rightarrow> (DataFrameClass, s')
           | (Inr dataframe, s') \<Rightarrow>
               (Frame (drop_partial_first_year (window_slice (start_year w c) (end_year w) dataframe)), s'))
      | None \<Rightarrow>
          (let r = \<lparr>from_year = start_year w c, to_year = end_year w\<rparr>;
               s1 = s\<lparr>fetched := fetched s @ [r]\<rparr>
           in case from_api_to_dataframe w r of
                Inl e \<Rightarrow> (DataFrameClass, s1)
              | Inr DataFrameClass \<Rightarrow> (DataFrameClass, s1)
              | Inr (Frame dataframe) \<Rightarrow>
                  (Frame (drop_partial_first_year dataframe), s1\<lparr>cache_file := Some dataframe\<rparr>)))"

text \<open>A cache holding the year 2022 only, read in 2025 with a window of five years.\<close>

definition demo_outside :: outside where
  "demo_outside = \<lparr>now_year = 2025, service = (\<lambda>r. Inl ServiceError),
     infer_freq = (\<lambda>ix. Inr None), resample_hour_mean = (\<lambda>df. df)\<rparr>"

definition demo_config :: config where
  "demo_config = \<lparr>analysis_length = 5, vat_perc = 255 / 1000, transfer_fee_perc = 111 / 1000\<rparr>"

definition demo_cached :: prices where
  "demo_cached = [(\<lparr>year = 2022, month = 1, day = 1, hour = 0, minute = 0, second = 0\<rparr>, 5)]"

definition demo_cache_state :: cache_state where
  "demo_cache_state = \<lparr>cache_file = Some demo_cached, fetched = []\<rparr>"

section \<open>pandas: series and frames\<close>

text \<open>
  A Series is an index (the labels, in order) with a value at each label; a DataFrame is an
  index shared by named columns, kept in column order. Labels of one index are taken to be
  distinct. Outside its index a series has no value, which \<open>value_at\<close> gives as NaN: this is what
  pandas' alignment by label produces when a series is combined with, or assigned into, an
  object of another index.
\<close>

record 'i series =
  sindex :: "'i list"
  svalues :: "'i \<Rightarrow> cell"

record ('n, 'i) frame =
  index :: "'i list"
  columns :: "('n \<times> ('i \<Rightarrow> cell)) list"

definition value_at :: "'i series \<Rightarrow> 'i \<Rightarrow> cell" where
  "value_at s t = (if t \<in> set (sindex s) then svalues s t else None)"

definition names :: "('n, 'i) frame \<Rightarrow> 'n list" where
  "names df = map fst (columns df)"

text \<open>\<open>pd.DataFrame()\<close>\<close>

definition empty_frame :: "('n, 'i) frame" where
  "empty_frame = \<lparr>index = [], columns = []\<rparr>"

text \<open>\<open>df[name]\<close>: KeyError when there is no such column.\<close>

definition getitem :: "'n \<Rightarrow> ('n, 'i) frame \<Rightarrow> exn + 'i series" where
  "getitem n df =
     (case map_of (columns df) n of
        None \<Rightarrow> Inl KeyError
      | Some f \<Rightarrow> Inr \<lparr>sindex = index df, svalues = f\<rparr>)"

text \<open>The cell of column \<open>n\<close> in the row labelled \<open>t\<close> (NaN when there is none).\<close>

definition cell_at :: "('n, 'i) frame \<Rightarrow> 'n \<Rightarrow> 'i \<Rightarrow> cell" where
  "cell_at df n t = (case getitem n df of Inl e \<Rightarrow> None | Inr s \<Rightarrow> value_at s t)"

text \<open>A frame whose index is empty takes the index of the first non-empty value assigned
  to it; columns it already had are NaN on the new index.\<close>

definition ensure_valid_index :: "'i series \<Rightarrow> ('n, 'i) frame \<Rightarrow> ('n, 'i) frame" where
  "ensure_valid_index s df =
     (if index df = [] \<and> sindex s \<noteq> []
      then \<lparr>index = sindex s, columns = map (\<lambda>(n, f). (n, \<lambda>t. None)) (columns df)\<rparr>
      else df)"

fun put_column :: "'n \<Rightarrow> 'v \<Rightarrow> ('n \<times> 'v) list \<Rightarrow> ('n \<times> 'v) list" where
  "put_column n v [] = [(n, v)]"
| "put_column n v ((m, u) # cs) = (if m = n then (n, v) # cs else (m, u) # put_column n v cs)"

text \<open>\<open>df[name] = s\<close>: the series is aligned to the frame's index; an existing column is
  replaced where it stands, a new one is appended as the last column.\<close>

definition setitem :: "'n \<Rightarrow> 'i series \<Rightarrow> ('n, 'i) frame \<Rightarrow> ('n, 'i) frame" where
  "setitem n s df =
     (let df' = ensure_valid_index s df
      in df'\<lparr>columns := put_column n (value_at s) (columns df')\<rparr>)"

text \<open>\<open>df.insert(loc, name, s)\<close>: ValueError when the column exists already.\<close>

definition insert_column :: "nat \<Rightarrow> 'n \<Rightarrow> 'i series \<Rightarrow> ('n, 'i) frame \<Rightarrow> exn + ('n, 'i) frame" where
  "insert_column loc n s df =
     (if n \<in> set (names df) then Inl ValueError
      else if loc > length (columns df) then Inl IndexError
      else (let df' = ensure_valid_index s df
            in Inr (df'\<lparr>columns := take loc (columns df') @ [(n, value_at s)] @ drop loc (columns df')\<rparr>)))"

fun first_index :: "'n \<Rightarrow> 'n list \<Rightarrow> nat option" where
  "first_index n [] = None"
| "first_index n (m # ms) = (if m = n then Some 0 else map_option Suc (first_index n ms))"

text \<open>\<open>df.columns.get_loc(name)\<close>\<close>

definition get_loc :: "'n \<Rightarrow> ('n, 'i) frame \<Rightarrow> exn + nat" where
  "get_loc n df = (case first_index n (names df) of None \<Rightarrow> Inl KeyError | Some k \<Rightarrow> Inr k)"

text \<open>Arithmetic on cells: NaN when either operand is NaN.\<close>

definition lift2 :: "(real \<Rightarrow> real \<Rightarrow> real) \<Rightarrow> cell \<Rightarrow> cell \<Rightarrow> cell" where
  "lift2 f a b = (case (a, b) of (Some x, Some y) \<Rightarrow> Some (f x y) | _ \<Rightarrow> None)"

text \<open>Arithmetic on two series is by label, over the union of the two indexes.\<close>

definition union_index :: "'i list \<Rightarrow> 'i list \<Rightarrow> 'i list" where
  "union_index a b = a @ filter (\<lambda>t. t \<notin> set a) b"

definition series_op :: "(real \<Rightarrow> real \<Rightarrow> real) \<Rightarrow> 'i series \<Rightarrow> 'i series \<Rightarrow> 'i series" where
  "series_op f a b =
     \<lparr>sindex = union_index (sindex a) (sindex b), svalues = (\<lambda>t. lift2 f (value_at a t) (value_at b t))\<rparr>"

text \<open>A series times a scalar (itself possibly NaN).\<close>

definition series_scale :: "'i series \<Rightarrow> cell \<Rightarrow> 'i series" where
  "series_scale s k = \<lparr>sindex = sindex s, svalues = (\<lambda>t. lift2 (*) (value_at s t) k)\<rparr>"

text \<open>\<open>s.clip(lower=lo)\<close>\<close>

definition clip_lower :: "real \<Rightarrow> 'i series \<Rightarrow> 'i series" where
  "clip_lower lo s = \<lparr>sindex = sindex s, svalues = (\<lambda>t. map_option (\<lambda>x. max x lo) (value_at s t))\<rparr>"

text \<open>Sums skip NaN.\<close>

definition nan_to_zero :: "cell \<Rightarrow> real" where
  "nan_to_zero c = (case c of None \<Rightarrow> 0 | Some x \<Rightarrow> x)"

text \<open>\<open>df.sum(axis=1)\<close>: one sum per row of the frame.\<close>

definition sum_axis1 :: "('n, 'i) frame \<Rightarrow> 'i series" where
  "sum_axis1 df =
     \<lparr>sindex = index df, svalues = (\<lambda>t. Some (sum_list (map (\<lambda>(n, f). nan_to_zero (f t)) (columns df))))\<rparr>"

text \<open>\<open>s.sum()\<close>\<close>

definition series_sum :: "'i series \<Rightarrow> real" where
  "series_sum s = sum_list (map (\<lambda>t. nan_to_zero (svalues s t)) (sindex s))"

text \<open>Rounding to a number of decimals: to the nearest, a tie to the even neighbour.\<close>

definition round_half_even :: "real \<Rightarrow> int" where
  "round_half_even x =
     (let f = \<lfloor>x\<rfloor>; d = x - of_int f
      in if d < 1 / 2 then f else if d > 1 / 2 then f + 1 else if even f then f else f + 1)"

definition round_decimals :: "nat \<Rightarrow> real \<Rightarrow> real" where
  "round_decimals k x = of_int (round_half_even (x * 10 ^ k)) / 10 ^ k"

text \<open>\<open>df.round(k)\<close>\<close>

definition frame_round :: "nat \<Rightarrow> ('n, 'i) frame \<Rightarrow> ('n, 'i) frame" where
  "frame_round k df =
     df\<lparr>columns := map (\<lambda>(n, f). (n, \<lambda>t. map_option (round_decimals k) (f t))) (columns df)\<rparr>"

text \<open>Sequencing of calls that may raise.\<close>

definition and_then :: "exn + 'a \<Rightarrow> ('a \<Rightarrow> exn + 'b) \<Rightarrow> exn + 'b" where
  "and_then r f = (case r of Inl e \<Rightarrow> Inl e | Inr x \<Rightarrow> f x)"

section \<open>Python strings\<close>

text \<open>\<open>str.lower()\<close> on ASCII letters.\<close>

definition char_lower :: "char \<Rightarrow> char" where
  "char_lower c =
     (case map_of (zip ''ABCDEFGHIJKLMNOPQRSTUVWXYZ'' ''abcdefghijklmnopqrstuvwxyz'') c of
        None \<Rightarrow> c | Some l \<Rightarrow> l)"

definition py_lower :: "string \<Rightarrow> string" where
  "py_lower s = map char_lower s"

text \<open>\<open>needle in s\<close> on strings: a contiguous occurrence.\<close>

definition py_in :: "string \<Rightarrow> string \<Rightarrow> bool" where
  "py_in needle s = sublist needle s"

text \<open>\<open>s.replace(old, new)\<close> for a non-empty \<open>old\<close>: every occurrence, left to right, the
  replacement not being searched again.\<close>

function py_replace :: "string \<Rightarrow> string \<Rightarrow> string \<Rightarrow> string" where
  "py_replace old new s =
     (if s = [] \<or> old = [] then s
      else if prefix old s then new @ py_replace old new (drop (length old) s)
      else hd s # py_replace old new (tl s))"
  by pat_completeness auto
termination
  by (relation "measure (\<lambda>(old, new, s). length s)") (auto simp: neq_Nil_conv)

declare py_replace.simps [simp del]

text \<open>\<open>str(i)\<close> of a natural number: its decimal digits.\<close>

definition digit_char :: "nat \<Rightarrow> char" where
  "digit_char d = ''0123456789'' ! d"

function str_nat :: "nat \<Rightarrow> string" where
  "str_nat n = (if n < 10 then [digit_char n] else str_nat (n div 10) @ [digit_char (n mod 10)])"
  by pat_completeness auto
termination
  by (relation "measure id") auto

declare str_nat.simps [simp del]

section \<open>energy_allocator.py\<close>

text \<open>The column names set in \<open>EnergyAllocator.__init__\<close>.\<close>

definition spot_price_median :: string where
  "spot_price_median = ''Spot median [c/kWh]''"

definition spot_price_median_fees :: string where
  "spot_price_median_fees = ''Spot median w/ fees [c/kWh]''"

definition production_column :: string where
  "production_column = ''PV production [kWh]''"

definition company_column :: string where
  "company_column = ''Company consumption [kWh]''"

definition company_after_pv :: string where
  "company_after_pv = ''Company after PV [kWh]''"

definition value_after_subtraction :: string where
  "value_after_subtraction = ''Company value of coverage [c]''"

definition pv_after_company :: string where
  "pv_after_company = ''PV post company [kWh]''"

definition temp_apartment_consumption :: string where
  "temp_apartment_consumption = ''APP consumption [kWh]''"

definition temp_app_after_pv :: string where
  "temp_app_after_pv = ''APP after PV [kWh]''"

definition temp_value_of_coverage :: string where
  "temp_value_of_coverage = ''APP value of coverage [c]''"

definition pv_over_production :: string where
  "pv_over_production = ''PV over production [kWh]''"

definition value_to_grid :: string where
  "value_to_grid = ''Electricity value to grid [c]''"

text \<open>
  \<open>app_data_dict\<close>: a dict of lists, one entry per apartment or apartment type; the
  \<open>amount\<close> list is optional.
\<close>

record app_data =
  apartment_list :: "string list"
  allocation_list :: "real list"
  profile_list :: "string list"
  amount_list :: "int list option"

text \<open>
  The allocator. Reading and aligning the production and company CSV files lies outside
  the model: \<open>add_company_consumption\<close> is the frame that method returns (the empty frame
  after a failure), and \<open>load_profile path\<close> is the column that
  \<open>profile_csv_to_dataframe(path)\<close> contributes when assigned into a frame, or the exception
  of the attempt.
\<close>

record 'i allocator =
  add_company_consumption :: "(string, 'i) frame"
  app_data_dict :: app_data
  calculation_method :: string
  load_profile :: "string \<Rightarrow> exn + 'i series"

definition require_columns :: "string list \<Rightarrow> (string, 'i) frame \<Rightarrow> exn + unit" where
  "require_columns cs df = (if \<forall>col \<in> set cs. col \<in> set (names df) then Inr () else Inl KeyError)"

text \<open>The body of the \<open>try\<close> block of \<open>calculate_company\<close>.\<close>

definition calculate_company_try :: "'i allocator \<Rightarrow> exn + (string, 'i) frame" where
  "calculate_company_try self =
     (let dataframe = add_company_consumption self in
      and_then (require_columns [company_column, production_column, spot_price_median] dataframe) (\<lambda>_.
      and_then (getitem company_column dataframe) (\<lambda>company.
      and_then (getitem production_column dataframe) (\<lambda>production.
      let unmet_consumption = series_op (-) company production;
          df1 = setitem company_after_pv (clip_lower 0 unmet_consumption) dataframe in
      and_then (getitem company_column df1) (\<lambda>company1.
      and_then (getitem company_after_pv df1) (\<lambda>after.
      let covered_consumption = series_op (-) company1 after in
      and_then (getitem spot_price_median_fees df1) (\<lambda>fees.
      let val = series_op (*) fees covered_consumption;
          df2 = setitem value_after_subtraction val df1 in
      and_then (getitem production_column df2) (\<lambda>production2.
      and_then (getitem company_column df2) (\<lambda>company2.
      let excess_pv = series_op (-) production2 company2 in
      Inr (setitem pv_after_company (clip_lower 0 excess_pv) df2))))))))))"

text \<open>\<open>calculate_company\<close>: any exception gives the empty frame.\<close>

definition calculate_company :: "'i allocator \<Rightarrow> (string, 'i) frame" where
  "calculate_company self =
     (case calculate_company_try self of Inl e \<Rightarrow> empty_frame | Inr df \<Rightarrow> df)"

text \<open>A row of \<open>apartments_df\<close>, whose index label is the apartment.\<close>

record apartment_row =
  apartment :: string
  allocation :: cell
  profile :: string
  amount :: "int option"

text \<open>\<open>pd.DataFrame(app_data_dict).set_index("apartment")\<close>: the lists must be equally
  long.\<close>

definition apartments_table :: "app_data \<Rightarrow> exn + apartment_row list" where
  "apartments_table d =
     (let n = length (apartment_list d)
      in if length (allocation_list d) \<noteq> n \<or> length (profile_list d) \<noteq> n
            \<or> (case amount_list d of None \<Rightarrow> False | Some a \<Rightarrow> length a \<noteq> n)
         then Inl ValueError
         else Inr (map (\<lambda>k. \<lparr>apartment = apartment_list d ! k,
                              allocation = Some (allocation_list d ! k),
                              profile = profile_list d ! k,
                              amount = map_option (\<lambda>a. a ! k) (amount_list d)\<rparr>) [0..<n]))"

text \<open>Division of a weight by an amount; a division by zero gives no finite number.\<close>

definition divide_by_amount :: "cell \<Rightarrow> int option \<Rightarrow> cell" where
  "divide_by_amount w a =
     (case (w, a) of
        (Some x, Some n) \<Rightarrow> if n = 0 then None else Some (x / of_int n)
      | _ \<Rightarrow> None)"

text \<open>
  The \<open>by_type\<close> branch. \<open>index.repeat(amount)\<close> repeats each label by its amount
  (ValueError on a negative amount, KeyError without an \<open>amount\<close> column); \<open>.loc\<close> with that
  list of labels takes, for each label in turn, every row carrying the label; the rows are
  renamed with a counter running from 1 over all of them; each allocation is divided by
  the amount of its row.
\<close>

definition expand_by_type :: "apartment_row list \<Rightarrow> exn + apartment_row list" where
  "expand_by_type tbl =
     (if \<exists>r \<in> set tbl. amount r = None then Inl KeyError
      else if \<exists>r \<in> set tbl. (case amount r of None \<Rightarrow> False | Some a \<Rightarrow> a < 0) then Inl ValueError
      else
        (let labels = concat (map (\<lambda>r. replicate (case amount r of None \<Rightarrow> 0 | Some a \<Rightarrow> nat a) (apartment r)) tbl);
             repeated = concat (map (\<lambda>l. filter (\<lambda>r. apartment r = l) tbl) labels);
             global_index = [1..<length repeated + 1];
             renamed = map (\<lambda>(r, i). r\<lparr>apartment := apartment r @ str_nat i\<rparr>) (zip repeated global_index)
         in Inr (map (\<lambda>r. r\<lparr>allocation := divide_by_amount (allocation r) (amount r)\<rparr>) renamed)))"

text \<open>\<open>apartments_df.loc[apartment, field]\<close> as a scalar. A label carried by several rows
  gives a Series instead, which neither \<open>read_csv\<close> nor \<open>insert\<close> of a second column of the
  same name survives.\<close>

definition loc_row :: "string \<Rightarrow> apartment_row list \<Rightarrow> exn + apartment_row" where
  "loc_row a tbl =
     (case filter (\<lambda>r. apartment r = a) tbl of
        [] \<Rightarrow> Inl KeyError
      | [r] \<Rightarrow> Inr r
      | _ \<Rightarrow> Inl ValueError)"

text \<open>The table \<open>self.apartments_df\<close> for the calculation method; with any other method
  the attribute is never set.\<close>

definition resolve_apartments :: "'i allocator \<Rightarrow> exn + apartment_row list" where
  "resolve_apartments self =
     (if calculation_method self = ''by_apartment'' then apartments_table (app_data_dict self)
      else if calculation_method self = ''by_type''
        then and_then (apartments_table (app_data_dict self)) expand_by_type
      else Inl AttributeError)"

text \<open>The body of the loop of \<open>add_apartment_consumption\<close>, on the pair of \<open>dataframe\<close>
  and \<open>self.profile_df\<close>. The call of \<open>remove_feb_29_if_mismatch\<close> there drops its
  result, so it changes nothing.\<close>

definition add_apartment_profile ::
  "'i allocator \<Rightarrow> apartment_row list \<Rightarrow> string \<Rightarrow> (string, 'i) frame \<times> (string, 'i) frame
     \<Rightarrow> exn + (string, 'i) frame \<times> (string, 'i) frame" where
  "add_apartment_profile self tbl a state =
     (case state of (dataframe, profile_df) \<Rightarrow>
        let apartment_consumption = py_replace ''APP'' a temp_apartment_consumption in
        and_then (loc_row a tbl) (\<lambda>row.
        and_then (load_profile self (profile row)) (\<lambda>loaded.
        let profile_df' = setitem apartment_consumption loaded profile_df in
        and_then (getitem apartment_consumption profile_df') (\<lambda>column.
        Inr (setitem apartment_consumption column dataframe, profile_df')))))"

fun add_apartment_profiles ::
  "'i allocator \<Rightarrow> apartment_row list \<Rightarrow> string list \<Rightarrow> (string, 'i) frame \<times> (string, 'i) frame
     \<Rightarrow> exn + (string, 'i) frame \<times> (string, 'i) frame" where
  "add_apartment_profiles self tbl [] state = Inr state"
| "add_apartment_profiles self tbl (a # rest) state =
     (case add_apartment_profile self tbl a state of
        Inl e \<Rightarrow> Inl e
      | Inr state' \<Rightarrow> add_apartment_profiles self tbl rest state')"

text \<open>
  The body of the \<open>try\<close> block of \<open>add_apartment_consumption\<close>. Besides the frame it gives
  the two attributes it has set, \<open>self.apartments_df\<close> and \<open>self.profile_df\<close>, which the
  later stages read. After an exception those stages get the empty frame, on which each of
  them raises in turn or has nothing to do; so an exception here is passed on as it is.
\<close>

definition add_apartment_consumption_try ::
  "'i allocator \<Rightarrow> exn + (string, 'i) frame \<times> apartment_row list \<times> (string, 'i) frame" where
  "add_apartment_consumption_try self =
     (let dataframe = calculate_company self in
      and_then (resolve_apartments self) (\<lambda>apartments_df.
      and_then (add_apartment_profiles self apartments_df (map apartment apartments_df) (dataframe, empty_frame))
        (\<lambda>(dataframe', profile_df). Inr (dataframe', apartments_df, profile_df))))"

definition add_apartment_consumption :: "'i allocator \<Rightarrow> (string, 'i) frame" where
  "add_apartment_consumption self =
     (case add_apartment_consumption_try self of Inl e \<Rightarrow> empty_frame | Inr (df, tbl, pdf) \<Rightarrow> df)"

text \<open>The body of the loop of \<open>calculate_apartment\<close>.\<close>

definition calculate_one_apartment ::
  "apartment_row list \<Rightarrow> string \<Rightarrow> (string, 'i) frame \<Rightarrow> exn + (string, 'i) frame" where
  "calculate_one_apartment tbl a dataframe =
     (let apartment_column = a @ '' consumption [kWh]'' in
      if apartment_column \<notin> set (names dataframe) then Inl KeyError
      else
        let app_after_pv_name = py_replace ''APP'' a temp_app_after_pv;
            value_of_coverage = py_replace ''APP'' a temp_value_of_coverage in
        and_then (getitem apartment_column dataframe) (\<lambda>consumption.
        and_then (getitem pv_after_company dataframe) (\<lambda>leftover.
        and_then (loc_row a tbl) (\<lambda>row.
        let app_after_pv = series_op (-) consumption (series_scale leftover (allocation row));
            covered_consumption = series_op (-) consumption app_after_pv in
        and_then (getitem spot_price_median_fees dataframe) (\<lambda>fees.
        let allocation_value = series_op (*) fees covered_consumption in
        and_then (get_loc apartment_column dataframe) (\<lambda>loc.
        let insert_loc = loc + 1 in
        and_then (insert_column insert_loc app_after_pv_name app_after_pv dataframe) (\<lambda>df1.
        insert_column (insert_loc + 1) value_of_coverage allocation_value df1)))))))"

fun calculate_apartments ::
  "apartment_row list \<Rightarrow> string list \<Rightarrow> (string, 'i) frame \<Rightarrow> exn + (string, 'i) frame" where
  "calculate_apartments tbl [] dataframe = Inr dataframe"
| "calculate_apartments tbl (a # rest) dataframe =
     (case calculate_one_apartment tbl a dataframe of
        Inl e \<Rightarrow> Inl e
      | Inr dataframe' \<Rightarrow> calculate_apartments tbl rest dataframe')"

definition calculate_apartment_try ::
  "'i allocator \<Rightarrow> exn + (string, 'i) frame \<times> apartment_row list \<times> (string, 'i) frame" where
  "calculate_apartment_try self =
     and_then (add_apartment_consumption_try self) (\<lambda>(dataframe, apartments_df, profile_df).
     and_then (calculate_apartments apartments_df (map apartment apartments_df) dataframe) (\<lambda>dataframe'.
     Inr (dataframe', apartments_df, profile_df)))"

definition calculate_apartment :: "'i allocator \<Rightarrow> (string, 'i) frame" where
  "calculate_apartment self =
     (case calculate_apartment_try self of Inl e \<Rightarrow> empty_frame | Inr (df, tbl, pdf) \<Rightarrow> df)"

text \<open>The frame of \<open>calculate_pv_over_production\<close> before its final \<open>round(3)\<close>.\<close>

definition pv_over_production_try :: "'i allocator \<Rightarrow> exn + (string, 'i) frame" where
  "pv_over_production_try self =
     and_then (calculate_apartment_try self) (\<lambda>(dataframe, apartments_df, profile_df).
     and_then (getitem production_column dataframe) (\<lambda>production.
     and_then (getitem company_column dataframe) (\<lambda>company.
     let calculation = clip_lower 0 (series_op (-) production (series_op (+) company (sum_axis1 profile_df)));
         df1 = setitem pv_over_production calculation dataframe in
     and_then (getitem pv_over_production df1) (\<lambda>surplus.
     and_then (getitem spot_price_median df1) (\<lambda>price.
     let val = series_op (*) surplus price in
     Inr (setitem value_to_grid val df1))))))"

definition calculate_pv_over_production :: "'i allocator \<Rightarrow> (string, 'i) frame" where
  "calculate_pv_over_production self =
     (case pv_over_production_try self of Inl e \<Rightarrow> empty_frame | Inr df \<Rightarrow> frame_round 3 df)"


text \<open>The two column lists that \<open>energy_value_sum\<close> zips.\<close>

definition before_columns :: "'i allocator \<Rightarrow> string list" where
  "before_columns self = filter (\<lambda>col. py_in ''consumption'' (py_lower col)) (names (calculate_pv_over_production self))"

definition after_columns :: "'i allocator \<Rightarrow> string list" where
  "after_columns self = filter (\<lambda>col. py_in ''after'' (py_lower col)) (names (calculate_pv_over_production self))"

text \<open>\<open>energy_value_sum\<close>: a dict filled pair by pair (a later pair with the same key
  replaces the earlier entry); the empty frame after the ValueError of a length mismatch.\<close>

definition energy_value_sum :: "'i allocator \<Rightarrow> (string \<times> real) list" where
  "energy_value_sum self =
     (let dataframe = calculate_pv_over_production self
      in if length (before_columns self) \<noteq> length (after_columns self) then []
         else fold (\<lambda>(before_col, after_col) savings.
                put_column (py_replace ''consumption'' ''consumption covered'' before_col)
                  (series_sum (series_op (-)
                     \<lparr>sindex = index dataframe, svalues = (\<lambda>t. cell_at dataframe before_col t)\<rparr>
                     \<lparr>sindex = index dataframe, svalues = (\<lambda>t. cell_at dataframe after_col t)\<rparr>))
                  savings)
              (zip (before_columns self) (after_columns self)) [])"

section \<open>spot_module.py: the hourly median\<close>

text \<open>
  The hour key \<open>strftime("%m-%d %H:%M:%S%z")\<close> of a UTC timestamp: month, day, hour,
  minute and second, zero padded, so that the order of the strings is the order of the
  tuples.
\<close>

type_synonym hour_key = "nat \<times> nat \<times> nat \<times> nat \<times> nat"

definition hour_key_of :: "stamp \<Rightarrow> hour_key" where
  "hour_key_of t = (month t, day t, hour t, minute t, second t)"

text \<open>The columns of the pivoted frame are years; the two median columns have names.\<close>

datatype column = Year int | Named string

definition mean :: "real list \<Rightarrow> cell" where
  "mean xs = (if xs = [] then None else Some (sum_list xs / of_nat (length xs)))"

text \<open>The cell of \<open>pivot_table\<close> for an hour key and a year: the mean (the default
  \<open>aggfunc\<close>) of the values with that key in that year, NaN when there is none.\<close>

definition year_value :: "prices \<Rightarrow> int \<Rightarrow> hour_key \<Rightarrow> cell" where
  "year_value df y h = mean (map snd (filter (\<lambda>(t, v). year t = y \<and> hour_key_of t = h) df))"

text \<open>\<open>pivot_table(index='hour_key', columns='year', values='value')\<close> followed by
  \<open>sort_index(axis=1)\<close>: one row per hour key, one column per year, both in order.\<close>

definition pivot_table :: "prices \<Rightarrow> (column, hour_key) frame" where
  "pivot_table df =
     \<lparr>index = sort (remdups (map (hour_key_of \<circ> fst) df)),
      columns = map (\<lambda>y. (Year y, year_value df y)) (sort (remdups (map (year \<circ> fst) df)))\<rparr>"

text \<open>\<open>spot_pivot_by_hour\<close>: item assignment on the class object raises, and the
  \<open>except\<close> hands the class object on.\<close>

definition spot_pivot_by_hour :: "prices returned \<Rightarrow> (column, hour_key) frame returned" where
  "spot_pivot_by_hour got =
     (case got of DataFrameClass \<Rightarrow> DataFrameClass | Frame dataframe \<Rightarrow> Frame (pivot_table dataframe))"

text \<open>The median of a list of numbers: the middle one of the sorted list, the mean of the
  two middle ones when their number is even; NaN for no number at all.\<close>

definition median :: "real list \<Rightarrow> cell" where
  "median xs =
     (let s = sort xs; n = length s
      in if n = 0 then None
         else if odd n then Some (s ! (n div 2))
         else Some ((s ! (n div 2 - 1) + s ! (n div 2)) / 2))"

text \<open>The numbers present in a row, in column order.\<close>

definition row_values :: "('n, 'i) frame \<Rightarrow> 'i \<Rightarrow> real list" where
  "row_values df t = concat (map (\<lambda>(n, f). case f t of None \<Rightarrow> [] | Some v \<Rightarrow> [v]) (columns df))"

text \<open>\<open>df.median(axis=1)\<close>: NaN is skipped.\<close>

definition median_axis1 :: "('n, 'i) frame \<Rightarrow> 'i series" where
  "median_axis1 df = \<lparr>sindex = index df, svalues = (\<lambda>t. median (row_values df t))\<rparr>"

text \<open>\<open>spot_calculate_median\<close>: the second \<open>dataframe.median(axis=1)\<close> is taken after the
  first median column has been added to the frame.\<close>

definition spot_calculate_median ::
  "config \<Rightarrow> (column, hour_key) frame returned \<Rightarrow> (column, hour_key) frame returned" where
  "spot_calculate_median c pivoted =
     (case pivoted of
        DataFrameClass \<Rightarrow> DataFrameClass
      | Frame dataframe \<Rightarrow>
          (let df1 = setitem (Named spot_price_median) (median_axis1 dataframe) dataframe;
               df2 = setitem (Named spot_price_median_fees)
                       (series_scale (median_axis1 df1) (Some (additional_fee c))) df1
           in Frame df2))"

text \<open>Three years of prices: the first hour of the year is priced in 2021, 2022 and
  2023, the second hour in 2021 and 2023 only.\<close>

definition demo_prices :: prices where
  "demo_prices =
     [(\<lparr>year = 2021, month = 1, day = 1, hour = 0, minute = 0, second = 0\<rparr>, 3),
      (\<lparr>year = 2021, month = 1, day = 1, hour = 1, minute = 0, second = 0\<rparr>, 2),
      (\<lparr>year = 2022, month = 1, day = 1, hour = 0, minute = 0, second = 0\<rparr>, 9),
      (\<lparr>year = 2023, month = 1, day = 1, hour = 0, minute = 0, second = 0\<rparr>, 5),
      (\<lparr>year = 2023, month = 1, day = 1, hour = 1, minute = 0, second = 0\<rparr>, 8)]"

text \<open>
  A small run: four hours with production 10 kWh (the last hour 2 kWh), company consumption
  4 kWh, median price 4 c/kWh and 5 c/kWh with fees; one apartment type \<open>A\<close> of two
  apartments sharing the weight 0.2, each consuming 3 kWh an hour.
\<close>

definition demo_frame :: "(string, nat) frame" where
  "demo_frame = \<lparr>index = [0, 1, 2, 3], columns =
     [(spot_price_median, \<lambda>t. Some 4), (spot_price_median_fees, \<lambda>t. Some 5),
      (production_column, \<lambda>t. if t = 3 then Some 2 else Some 10),
      (company_column, \<lambda>t. Some 4)]\<rparr>"

definition demo_profile :: "nat series" where
  "demo_profile = \<lparr>sindex = [0, 1, 2, 3], svalues = (\<lambda>t. Some 3)\<rparr>"


text \<open>The same hours with a single apartment \<open>U\<close> that is given all of the leftover PV.\<close>

definition demo_single :: "nat allocator" where
  "demo_single = \<lparr>add_company_consumption = demo_frame,
     app_data_dict = \<lparr>apartment_list = [''U''], allocation_list = [1],
       profile_list = [''U_consumption.csv''], amount_list = None\<rparr>,
     calculation_method = ''by_apartment'',
     load_profile = (\<lambda>path. Inr demo_profile)\<rparr>"

text \<open>One hour with production 0.0016 kWh and company consumption 0.0004 kWh, and an
  apartment \<open>U\<close> that consumes nothing and is allocated nothing.\<close>

definition demo_small_frame :: "(string, nat) frame" where
  "demo_small_frame = \<lparr>index = [0], columns =
     [(spot_price_median, \<lambda>t. Some 4), (spot_price_median_fees, \<lambda>t. Some 5),
      (production_column, \<lambda>t. Some (16 / 10000)),
      (company_column, \<lambda>t. Some (4 / 10000))]\<rparr>"

definition demo_small :: "nat allocator" where
  "demo_small = \<lparr>add_company_consumption = demo_small_frame,
     app_data_dict = \<lparr>apartment_list = [''U''], allocation_list = [0],
       profile_list = [''U_consumption.csv''], amount_list = None\<rparr>,
     calculation_method = ''by_apartment'',
     load_profile = (\<lambda>path. Inr \<lparr>sindex = [0], svalues = (\<lambda>t. Some 0)\<rparr>)\<rparr>"


section \<open>Facts about series and frames\<close>

lemma and_then_Inr_iff:
  "and_then r f = Inr y \<longleftrightarrow> (\<exists>x. r = Inr x \<and> f x = Inr y)"
  by (cases r) (simp_all add: and_then_def)

lemma value_at_series_op [simp]:
  "value_at (series_op f a b) t = lift2 f (value_at a t) (value_at b t)"
  by (simp add: value_at_def series_op_def union_index_def lift2_def)

lemma value_at_series_scale [simp]:
  "value_at (series_scale s k) t = lift2 (*) (value_at s t) k"
  by (simp add: value_at_def series_scale_def lift2_def)

lemma value_at_clip_lower [simp]:
  "value_at (clip_lower lo s) t = map_option (\<lambda>x. max x lo) (value_at s t)"
  by (simp add: value_at_def clip_lower_def)

lemma union_index_same [simp]: "union_index a a = a"
  by (simp add: union_index_def)

lemma sindex_series_op_same:
  "sindex a = ix \<Longrightarrow> sindex b = ix \<Longrightarrow> sindex (series_op f a b) = ix"
  by (simp add: series_op_def)

lemma sindex_clip_lower [simp]: "sindex (clip_lower lo s) = sindex s"
  by (simp add: clip_lower_def)

lemma sindex_series_scale [simp]: "sindex (series_scale s k) = sindex s"
  by (simp add: series_scale_def)

lemma getitem_Inr:
  assumes "getitem n df = Inr s"
  shows "sindex s = index df" and "value_at s t = cell_at df n t" and "n \<in> set (names df)"
proof -
  from assms obtain f where f: "map_of (columns df) n = Some f"
    and s: "s = \<lparr>sindex = index df, svalues = f\<rparr>"
    by (auto simp: getitem_def split: option.splits)
  show "sindex s = index df" using s by simp
  show "value_at s t = cell_at df n t" using assms by (simp add: cell_at_def)
  from f have "(n, f) \<in> set (columns df)" by (rule map_of_SomeD)
  then show "n \<in> set (names df)" by (force simp: names_def)
qed

lemma getitem_ok:
  assumes "n \<in> set (names df)"
  shows "\<exists>s. getitem n df = Inr s"
proof -
  from assms have "map_of (columns df) n \<noteq> None"
    by (simp add: names_def map_of_eq_None_iff)
  then show ?thesis by (auto simp: getitem_def)
qed

lemma cell_at_alt:
  "cell_at df n t =
     (case map_of (columns df) n of
        None \<Rightarrow> None
      | Some f \<Rightarrow> if t \<in> set (index df) then f t else None)"
  by (simp add: cell_at_def getitem_def value_at_def split: option.splits)

lemma cell_at_outside: "t \<notin> set (index df) \<Longrightarrow> cell_at df n t = None"
  by (simp add: cell_at_def getitem_def value_at_def split: option.splits)

lemma map_of_put_column: "map_of (put_column n v cs) m = (if m = n then Some v else map_of cs m)"
  by (induction cs) auto

lemma names_put_column:
  "map fst (put_column n v cs) = (if n \<in> fst ` set cs then map fst cs else map fst cs @ [n])"
  by (induction cs) force+

lemma index_ensure_valid_index:
  "index (ensure_valid_index s df) = (if index df = [] then sindex s else index df)"
  by (simp add: ensure_valid_index_def)

lemma names_ensure_valid_index [simp]: "names (ensure_valid_index s df) = names df"
  by (simp add: ensure_valid_index_def names_def comp_def case_prod_unfold)

lemma map_of_blank:
  "map_of (map (\<lambda>(n, f). (n, \<lambda>t. None)) cs) n = Some g \<Longrightarrow> g t = None"
  by (induction cs) (auto split: if_splits)

lemma cell_at_ensure_valid_index [simp]:
  "cell_at (ensure_valid_index s df) n t = cell_at df n t"
proof (cases "index df = [] \<and> sindex s \<noteq> []")
  case False
  then show ?thesis by (auto simp: ensure_valid_index_def)
next
  case True
  have "cell_at (ensure_valid_index s df) n t = None"
    using True
    by (auto simp: ensure_valid_index_def cell_at_def getitem_def value_at_def
        split: option.splits dest: map_of_blank)
  moreover have "cell_at df n t = None"
    using True by (simp add: cell_at_outside)
  ultimately show ?thesis by simp
qed

lemma index_setitem:
  "index (setitem n s df) = (if index df = [] then sindex s else index df)"
  by (simp add: setitem_def Let_def index_ensure_valid_index)

lemma names_setitem:
  "names (setitem n s df) = (if n \<in> set (names df) then names df else names df @ [n])"
proof -
  have "names (setitem n s df) = map fst (put_column n (value_at s) (columns (ensure_valid_index s df)))"
    by (simp add: setitem_def Let_def names_def)
  also have "\<dots> = (if n \<in> set (names (ensure_valid_index s df)) then names (ensure_valid_index s df)
                     else names (ensure_valid_index s df) @ [n])"
    by (simp add: names_put_column names_def)
  finally show ?thesis by simp
qed

lemma cell_at_setitem:
  "cell_at (setitem n s df) m t =
     (if m = n then (if t \<in> set (index (setitem n s df)) then value_at s t else None)
      else cell_at df m t)"
proof -
  let ?d = "ensure_valid_index s df"
  have ix: "index (setitem n s df) = index ?d"
    by (simp add: setitem_def Let_def)
  show ?thesis
  proof (cases "m = n")
    case True
    then show ?thesis
      by (simp add: cell_at_def getitem_def setitem_def Let_def map_of_put_column value_at_def)
  next
    case False
    have "cell_at (setitem n s df) m t = cell_at ?d m t"
      using False
      by (simp add: cell_at_def getitem_def setitem_def Let_def map_of_put_column split: option.splits)
    then show ?thesis using False by simp
  qed
qed

lemma cell_at_setitem_aligned:
  assumes "sindex s = index df"
  shows "cell_at (setitem n s df) m t = (if m = n then value_at s t else cell_at df m t)"
  using assms by (auto simp: cell_at_setitem index_setitem value_at_def)

lemma index_setitem_aligned: "sindex s = index df \<Longrightarrow> index (setitem n s df) = index df"
  by (simp add: index_setitem)

lemma map_of_insert_at:
  "map_of (take k cs @ [(n, v)] @ drop k cs) m =
     (if m = n \<and> n \<notin> fst ` set (take k cs) then Some v else map_of cs m)"
proof (induction cs arbitrary: k)
  case Nil
  then show ?case by simp
next
  case (Cons c cs)
  then show ?case by (cases k; cases c) auto
qed

lemma insert_column_Inr:
  assumes "insert_column loc n s df = Inr df'"
  shows "n \<notin> set (names df)"
    and "loc \<le> length (names df)"
    and "names df' = take loc (names df) @ [n] @ drop loc (names df)"
    and "index df' = (if index df = [] then sindex s else index df)"
    and "cell_at df' m t = (if m = n then (if t \<in> set (index df') then value_at s t else None)
                            else cell_at df m t)"
proof -
  let ?d = "ensure_valid_index s df"
  from assms have fresh: "n \<notin> set (names df)" and le: "loc \<le> length (columns df)"
    and df': "df' = ?d\<lparr>columns := take loc (columns ?d) @ [(n, value_at s)] @ drop loc (columns ?d)\<rparr>"
    by (auto simp: insert_column_def Let_def split: if_splits)
  show "n \<notin> set (names df)" by (rule fresh)
  show "loc \<le> length (names df)" using le by (simp add: names_def)
  have nd: "names ?d = names df" by simp
  have "names df' = take loc (names ?d) @ [n] @ drop loc (names ?d)"
    by (simp add: df' names_def take_map drop_map)
  then show "names df' = take loc (names df) @ [n] @ drop loc (names df)"
    by (simp only: nd)
  show ix: "index df' = (if index df = [] then sindex s else index df)"
    by (simp add: df' index_ensure_valid_index)
  have fresh': "n \<notin> fst ` set (take loc (columns ?d))"
  proof
    assume "n \<in> fst ` set (take loc (columns ?d))"
    then have "n \<in> fst ` set (columns ?d)"
      by (auto dest: in_set_takeD)
    then have "n \<in> set (names ?d)" by (simp add: names_def)
    with fresh nd show False by simp
  qed
  have cols: "columns df' = take loc (columns ?d) @ [(n, value_at s)] @ drop loc (columns ?d)"
    by (simp add: df')
  have mo: "map_of (columns df') m = (if m = n then Some (value_at s) else map_of (columns ?d) m)"
    unfolding cols map_of_insert_at using fresh' by simp
  have ixd: "index df' = index ?d"
    by (simp add: df')
  have "cell_at df' m t = (if m = n then (if t \<in> set (index df') then value_at s t else None)
                            else cell_at ?d m t)"
    by (simp add: cell_at_alt mo ixd split: option.splits del: cell_at_ensure_valid_index)
  then show "cell_at df' m t = (if m = n then (if t \<in> set (index df') then value_at s t else None)
                            else cell_at df m t)"
    by simp
qed

lemma insert_column_ok:
  assumes "n \<notin> set (names df)" and "loc \<le> length (names df)"
  shows "\<exists>df'. insert_column loc n s df = Inr df'"
  using assms by (simp add: insert_column_def Let_def names_def)

lemma first_index_Some:
  "first_index n ns = Some k \<Longrightarrow> k < length ns \<and> ns ! k = n \<and> n \<notin> set (take k ns)"
proof (induction ns arbitrary: k)
  case Nil
  then show ?case by simp
next
  case (Cons m ms)
  show ?case
  proof (cases "m = n")
    case True
    with Cons.prems show ?thesis by simp
  next
    case False
    with Cons.prems obtain j where j: "first_index n ms = Some j" and k: "k = Suc j"
      by auto
    from Cons.IH [OF j] False show ?thesis by (simp add: k)
  qed
qed


lemma get_loc_Inr:
  "get_loc n df = Inr k \<Longrightarrow> k < length (names df) \<and> names df ! k = n \<and> n \<notin> set (take k (names df))"
  by (auto simp: get_loc_def split: option.splits dest: first_index_Some)

lemma index_frame_round [simp]: "index (frame_round k df) = index df"
  by (simp add: frame_round_def)

lemma names_frame_round [simp]: "names (frame_round k df) = names df"
  by (simp add: frame_round_def names_def comp_def case_prod_unfold)

lemma cell_at_frame_round [simp]:
  "cell_at (frame_round k df) n t = map_option (round_decimals k) (cell_at df n t)"
proof -
  have "map_of (map (\<lambda>(n, f). (n, \<lambda>t. map_option (round_decimals k) (f t))) (columns df)) n
          = map_option (\<lambda>f t. map_option (round_decimals k) (f t)) (map_of (columns df) n)"
    by (induction "columns df") (auto simp: map_of_map)
  then show ?thesis
    by (auto simp: frame_round_def cell_at_def getitem_def value_at_def split: option.splits)
qed

section \<open>Properties of the price cache\<close>

lemma update_cache_trailing_first:
  assumes "year_max df = Some mx" and "year_min df = Some mn" and "mx < end_year w"
  shows "fetched (snd (update_cache w c df s)) =
           fetched s @ [\<lparr>from_year = mx + 1, to_year = end_year w\<rparr>]"
  using assms
  by (simp add: update_cache_def Let_def split: sum.splits returned.splits)

text \<open>
  C1, as stated: with a cache missing both a leading and a trailing range, the one request
  of the call covers the leading gap. It does not: with the year 2022 cached and the window
  2020..2024, the call asks for 2023..2024.
\<close>

theorem C1_leading_gap_counterexample:
  "year_min demo_cached = Some 2022 \<and> 2022 > start_year demo_outside demo_config
   \<and> year_max demo_cached = Some 2022 \<and> 2022 < end_year demo_outside
   \<and> fetched (snd (spot_get_price demo_outside demo_config demo_cache_state))
       = [\<lparr>from_year = 2023, to_year = 2024\<rparr>]
   \<and> fetched (snd (spot_get_price demo_outside demo_config demo_cache_state))
       \<noteq> [\<lparr>from_year = start_year demo_outside demo_config, to_year = 2022 - 1\<rparr>]"
  by (simp add: spot_get_price_def update_cache_def from_api_to_dataframe_def year_min_def year_max_def
      start_year_def end_year_def demo_outside_def demo_config_def demo_cached_def demo_cache_state_def)

text \<open>
  C1, amended: when the cache exists and misses both a leading range (cached minimum year
  after \<open>start_year\<close>) and a trailing range (cached maximum year before \<open>end_year\<close>), one
  call issues exactly one request, and it covers the trailing gap, from the year after the
  cached maximum to \<open>end_year\<close>: the trailing-gap test comes first.
\<close>

theorem C1_one_fetch_trailing_gap:
  assumes "cache_file s = Some cached"
    and "year_min cached = Some mn" and "mn > start_year w c"
    and "year_max cached = Some mx" and "mx < end_year w"
  shows "fetched (snd (spot_get_price w c s)) =
           fetched s @ [\<lparr>from_year = mx + 1, to_year = end_year w\<rparr>]"
proof -
  have "fetched (snd (update_cache w c cached s)) =
          fetched s @ [\<lparr>from_year = mx + 1, to_year = end_year w\<rparr>]"
    using assms by (intro update_cache_trailing_first) auto
  then show ?thesis
    using assms(1)
    by (cases "update_cache w c cached s") (auto simp: spot_get_price_def split: sum.splits)
qed

theorem C1_one_fetch_trailing_gap_witness:
  "cache_file demo_cache_state = Some demo_cached
   \<and> year_min demo_cached = Some 2022 \<and> 2022 > start_year demo_outside demo_config
   \<and> year_max demo_cached = Some 2022 \<and> 2022 < end_year demo_outside
   \<and> fetched (snd (spot_get_price demo_outside demo_config demo_cache_state)) =
       fetched demo_cache_state @ [\<lparr>from_year = 2022 + 1, to_year = end_year demo_outside\<rparr>]"
proof -
  have h: "cache_file demo_cache_state = Some demo_cached"
    "year_min demo_cached = Some 2022" "2022 > start_year demo_outside demo_config"
    "year_max demo_cached = Some 2022" "2022 < end_year demo_outside"
    by (simp_all add: year_min_def year_max_def start_year_def end_year_def
        demo_outside_def demo_config_def demo_cached_def demo_cache_state_def)
  show ?thesis
    using h C1_one_fetch_trailing_gap [OF h] by simp
qed

section \<open>The company balance\<close>

lemma column_names_distinct:
  "distinct [spot_price_median, spot_price_median_fees, production_column, company_column,
     company_after_pv, value_after_subtraction, pv_after_company, pv_over_production, value_to_grid]"
  by (simp add: spot_price_median_def spot_price_median_fees_def production_column_def
      company_column_def company_after_pv_def value_after_subtraction_def pv_after_company_def
      pv_over_production_def value_to_grid_def)

lemma calculate_company_try_Inr:
  assumes ok: "calculate_company_try self = Inr df"
  shows "index df = index (add_company_consumption self)"
    and "cell_at df n t =
      (let base = add_company_consumption self;
           c = cell_at base company_column t;
           p = cell_at base production_column t;
           after = map_option (\<lambda>x. max x 0) (lift2 (-) c p)
       in if n = pv_after_company then map_option (\<lambda>x. max x 0) (lift2 (-) p c)
          else if n = value_after_subtraction
            then lift2 (*) (cell_at base spot_price_median_fees t) (lift2 (-) c after)
          else if n = company_after_pv then after
          else cell_at base n t)"
    and "names df =
      (let n0 = names (add_company_consumption self);
           n1 = (if company_after_pv \<in> set n0 then n0 else n0 @ [company_after_pv]);
           n2 = (if value_after_subtraction \<in> set n1 then n1 else n1 @ [value_after_subtraction])
       in if pv_after_company \<in> set n2 then n2 else n2 @ [pv_after_company])"
    and "{company_column, production_column, spot_price_median, spot_price_median_fees}
           \<subseteq> set (names (add_company_consumption self))"
proof -
  define base where "base = add_company_consumption self"
  from ok obtain c p c1 a f p2 c2 where
    req: "require_columns [company_column, production_column, spot_price_median] base = Inr ()"
    and c: "getitem company_column base = Inr c"
    and p: "getitem production_column base = Inr p"
    and c1: "getitem company_column (setitem company_after_pv (clip_lower 0 (series_op (-) c p)) base) = Inr c1"
    and a: "getitem company_after_pv (setitem company_after_pv (clip_lower 0 (series_op (-) c p)) base) = Inr a"
    and f: "getitem spot_price_median_fees (setitem company_after_pv (clip_lower 0 (series_op (-) c p)) base) = Inr f"
    and p2: "getitem production_column (setitem value_after_subtraction (series_op (*) f (series_op (-) c1 a))
               (setitem company_after_pv (clip_lower 0 (series_op (-) c p)) base)) = Inr p2"
    and c2: "getitem company_column (setitem value_after_subtraction (series_op (*) f (series_op (-) c1 a))
               (setitem company_after_pv (clip_lower 0 (series_op (-) c p)) base)) = Inr c2"
    and df: "df = setitem pv_after_company (clip_lower 0 (series_op (-) p2 c2))
               (setitem value_after_subtraction (series_op (*) f (series_op (-) c1 a))
                 (setitem company_after_pv (clip_lower 0 (series_op (-) c p)) base))"
    by (auto simp: calculate_company_try_def and_then_Inr_iff Let_def base_def)
  define df1 where "df1 = setitem company_after_pv (clip_lower 0 (series_op (-) c p)) base"
  define df2 where "df2 = setitem value_after_subtraction (series_op (*) f (series_op (-) c1 a)) df1"
  note d = column_names_distinct
  have c1: "getitem company_column df1 = Inr c1"
    and a: "getitem company_after_pv df1 = Inr a"
    and f: "getitem spot_price_median_fees df1 = Inr f"
    using c1 a f by (simp_all add: df1_def)
  have p2: "getitem production_column df2 = Inr p2"
    and c2: "getitem company_column df2 = Inr c2"
    using p2 c2 by (simp_all add: df2_def df1_def)
  have s1: "sindex (clip_lower 0 (series_op (-) c p)) = index base"
    using getitem_Inr(1) [OF c] getitem_Inr(1) [OF p] by (simp add: sindex_series_op_same)
  have i1: "index df1 = index base"
    unfolding df1_def by (rule index_setitem_aligned [OF s1])
  have v1: "cell_at df1 m t = (if m = company_after_pv
              then map_option (\<lambda>x. max x 0) (lift2 (-) (cell_at base company_column t) (cell_at base production_column t))
              else cell_at base m t)" for m
    unfolding df1_def
    by (simp add: cell_at_setitem_aligned [OF s1] getitem_Inr(2) [OF c] getitem_Inr(2) [OF p])
  have s2: "sindex (series_op (*) f (series_op (-) c1 a)) = index df1"
    using getitem_Inr(1) [OF c1] getitem_Inr(1) [OF a] getitem_Inr(1) [OF f]
    by (simp add: sindex_series_op_same)
  have i2: "index df2 = index base"
    unfolding df2_def using index_setitem_aligned [OF s2] i1 by simp
  have v2: "cell_at df2 m t = (if m = value_after_subtraction
              then lift2 (*) (cell_at df1 spot_price_median_fees t)
                     (lift2 (-) (cell_at df1 company_column t) (cell_at df1 company_after_pv t))
              else cell_at df1 m t)" for m
    unfolding df2_def
    by (simp add: cell_at_setitem_aligned [OF s2] getitem_Inr(2) [OF c1] getitem_Inr(2) [OF a]
        getitem_Inr(2) [OF f])
  have s3: "sindex (clip_lower 0 (series_op (-) p2 c2)) = index df2"
    using getitem_Inr(1) [OF p2] getitem_Inr(1) [OF c2]
    by (simp add: sindex_series_op_same)
  have dfe: "df = setitem pv_after_company (clip_lower 0 (series_op (-) p2 c2)) df2"
    by (simp add: df df2_def df1_def)
  have i3: "index df = index base"
    unfolding dfe using index_setitem_aligned [OF s3] i2 by simp
  have v3: "cell_at df m t = (if m = pv_after_company
              then map_option (\<lambda>x. max x 0) (lift2 (-) (cell_at df2 production_column t) (cell_at df2 company_column t))
              else cell_at df2 m t)" for m
    unfolding dfe
    by (simp add: cell_at_setitem_aligned [OF s3] getitem_Inr(2) [OF p2] getitem_Inr(2) [OF c2])
  show "index df = index (add_company_consumption self)"
    using i3 by (simp add: base_def)
  show "cell_at df n t =
      (let base = add_company_consumption self;
           c = cell_at base company_column t;
           p = cell_at base production_column t;
           after = map_option (\<lambda>x. max x 0) (lift2 (-) c p)
       in if n = pv_after_company then map_option (\<lambda>x. max x 0) (lift2 (-) p c)
          else if n = value_after_subtraction
            then lift2 (*) (cell_at base spot_price_median_fees t) (lift2 (-) c after)
          else if n = company_after_pv then after
          else cell_at base n t)"
    using d by (simp add: v3 v2 v1 Let_def base_def [symmetric])
  show "names df =
      (let n0 = names (add_company_consumption self);
           n1 = (if company_after_pv \<in> set n0 then n0 else n0 @ [company_after_pv]);
           n2 = (if value_after_subtraction \<in> set n1 then n1 else n1 @ [value_after_subtraction])
       in if pv_after_company \<in> set n2 then n2 else n2 @ [pv_after_company])"
    by (simp add: dfe df2_def df1_def names_setitem Let_def base_def)
  have "company_column \<in> set (names base)" "production_column \<in> set (names base)"
    "spot_price_median \<in> set (names base)"
    using req by (auto simp: require_columns_def split: if_splits)
  moreover have "spot_price_median_fees \<in> set (names df1)"
    using getitem_Inr(3) [OF f] by (simp add: df1_def)
  then have "spot_price_median_fees \<in> set (names base)"
    using d by (auto simp: df1_def names_setitem split: if_splits)
  ultimately show "{company_column, production_column, spot_price_median, spot_price_median_fees}
           \<subseteq> set (names (add_company_consumption self))"
    by (simp add: base_def)
qed

lemma calculate_company_cases:
  obtains (failed) "calculate_company self = empty_frame"
  | (ok) "calculate_company_try self = Inr (calculate_company self)"
  by (cases "calculate_company_try self") (auto simp: calculate_company_def)



section \<open>Apartment set resolution\<close>







section \<open>Column names\<close>

lemma consumption_name [simp]:
  "py_replace ''APP'' a temp_apartment_consumption = a @ '' consumption [kWh]''"
  by (simp add: temp_apartment_consumption_def py_replace.simps)

lemma after_name [simp]:
  "py_replace ''APP'' a temp_app_after_pv = a @ '' after PV [kWh]''"
  by (simp add: temp_app_after_pv_def py_replace.simps)

lemma value_name [simp]:
  "py_replace ''APP'' a temp_value_of_coverage = a @ '' value of coverage [c]''"
  by (simp add: temp_value_of_coverage_def py_replace.simps)

lemma append_eq_ends:
  assumes "a @ s = b @ s'" and "length s \<le> length s'"
  shows "drop (length s' - length s) s' = s"
proof -
  from assms have "length a \<ge> length b" 
    by (metis add_le_cancel_left length_append add.commute le_diff_conv diff_le_self nat_le_linear add_diff_cancel_right' diff_is_0_eq')
  with assms(1) obtain c where "a = b @ c" and "s' = c @ s"
    by (metis append_eq_append_conv_if append_take_drop_id)
  then show ?thesis by simp
qed

lemma consumption_not_after: "a @ '' consumption [kWh]'' \<noteq> b @ '' after PV [kWh]''"
proof
  assume "a @ '' consumption [kWh]'' = b @ '' after PV [kWh]''"
  then have "b @ '' after PV [kWh]'' = a @ '' consumption [kWh]''" by simp
  from append_eq_ends [OF this] show False by simp
qed


lemma after_not_value: "a @ '' after PV [kWh]'' \<noteq> b @ '' value of coverage [c]''"
proof
  assume "a @ '' after PV [kWh]'' = b @ '' value of coverage [c]''"
  from append_eq_ends [OF this] show False by simp
qed



lemma not_suffixed: "\<not> suffix s c \<Longrightarrow> c \<noteq> u @ s"
  by (auto simp: suffix_def)

lemma fixed_columns_not_unit:
  assumes "c \<in> {spot_price_median, spot_price_median_fees, production_column, company_after_pv,
     value_after_subtraction, pv_after_company, pv_over_production, value_to_grid}"
  shows "c \<noteq> u @ '' consumption [kWh]''"
    and "c \<noteq> u @ '' after PV [kWh]'' \<or> c = company_after_pv"
    and "c \<noteq> u @ '' value of coverage [c]'' \<or> c = value_after_subtraction"
  using assms
  by (auto simp: suffix_to_prefix spot_price_median_def spot_price_median_fees_def
      production_column_def company_after_pv_def value_after_subtraction_def pv_after_company_def
      pv_over_production_def value_to_grid_def intro!: not_suffixed)

lemma company_column_not_unit:
  "company_column \<noteq> u @ '' after PV [kWh]''" "company_column \<noteq> u @ '' value of coverage [c]''"
  by (auto simp: suffix_to_prefix company_column_def intro!: not_suffixed)

section \<open>The loop of calculate_apartment\<close>

lemma first_index_None_iff: "first_index x ns = None \<longleftrightarrow> x \<notin> set ns"
  by (induction ns) auto

lemma first_index_append:
  assumes "length xs = n"
  shows "first_index x (xs @ ys) =
     (case first_index x xs of
        Some i \<Rightarrow> Some i
      | None \<Rightarrow> map_option (\<lambda>j. n + j) (first_index x ys))"
  using assms
proof (induction xs arbitrary: n)
  case Nil
  then show ?case by (cases "first_index x ys") simp_all
next
  case (Cons y xs)
  from Cons.IH [of "length xs"] Cons.prems show ?case
    by (cases "first_index x ys"; cases "first_index x xs") auto
qed

lemma first_index_insert2:
  assumes "q \<le> length ns" and "x \<noteq> n1" and "x \<noteq> n2"
  shows "first_index x (take q ns @ [n1, n2] @ drop q ns)
           = map_option (\<lambda>i. if i < q then i else i + 2) (first_index x ns)"
proof -
  let ?A = "take q ns" and ?B = "drop q ns"
  have len: "length ?A = q" using assms(1) by simp
  have ns: "first_index x ns = (case first_index x ?A of Some i \<Rightarrow> Some i
              | None \<Rightarrow> map_option (\<lambda>j. q + j) (first_index x ?B))"
    using first_index_append [OF len, of x ?B] by simp
  have ins: "first_index x (?A @ [n1, n2] @ ?B) = (case first_index x ?A of Some i \<Rightarrow> Some i
              | None \<Rightarrow> map_option (\<lambda>j. q + j) (first_index x ([n1, n2] @ ?B)))"
    by (rule first_index_append [OF len])
  show ?thesis
  proof (cases "first_index x ?A")
    case (Some i)
    then have "i < q" using first_index_Some [OF Some] len by simp
    then show ?thesis using Some ns ins by simp
  next
    case None
    then show ?thesis
      using ns ins assms(2,3)
      by (cases "first_index x ?B") (simp_all add: option.map_comp comp_def)
  qed
qed

lemma first_index_inserted:
  assumes "q \<le> length ns" and "n1 \<notin> set ns" and "n2 \<notin> set ns" and "n1 \<noteq> n2"
  shows "first_index n1 (take q ns @ [n1, n2] @ drop q ns) = Some q"
    and "first_index n2 (take q ns @ [n1, n2] @ drop q ns) = Some (q + 1)"
proof -
  have len: "length (take q ns) = q" using assms(1) by simp
  have a: "first_index n1 (take q ns) = None" "first_index n2 (take q ns) = None"
    using assms(2,3) by (auto simp: first_index_None_iff dest: in_set_takeD)
  show "first_index n1 (take q ns @ [n1, n2] @ drop q ns) = Some q"
    by (simp add: first_index_append [OF len] a)
  show "first_index n2 (take q ns @ [n1, n2] @ drop q ns) = Some (q + 1)"
    using assms(4) by (simp add: first_index_append [OF len] a)
qed

lemma block_step:
  assumes fa: "first_index a ns = Some k"
    and fb: "first_index b ns = Some (k + 1)"
    and fc: "first_index c ns = Some (k + 2)"
    and fv: "first_index v ns = Some kv"
    and fresh: "n1 \<notin> set ns" "n2 \<notin> set ns"
    and diff: "a \<noteq> v" "b \<noteq> v"
  shows "\<exists>k'. first_index a (take (kv + 1) ns @ [n1, n2] @ drop (kv + 1) ns) = Some k'
           \<and> first_index b (take (kv + 1) ns @ [n1, n2] @ drop (kv + 1) ns) = Some (k' + 1)
           \<and> first_index c (take (kv + 1) ns @ [n1, n2] @ drop (kv + 1) ns) = Some (k' + 2)"
proof -
  have q: "kv + 1 \<le> length ns"
    using first_index_Some [OF fv] by simp
  have "a \<in> set ns" "b \<in> set ns" "c \<in> set ns"
    using fa fb fc first_index_None_iff [of _ ns] by (metis option.distinct(1))+
  with fresh have ne: "a \<noteq> n1" "a \<noteq> n2" "b \<noteq> n1" "b \<noteq> n2" "c \<noteq> n1" "c \<noteq> n2"
    by auto
  have "kv \<noteq> k"
    using first_index_Some [OF fa] first_index_Some [OF fv] diff(1) by auto
  moreover have "kv \<noteq> k + 1"
    using first_index_Some [OF fb] first_index_Some [OF fv] diff(2) by auto
  ultimately have "\<exists>k'. (if k < kv + 1 then k else k + 2) = k'
      \<and> (if k + 1 < kv + 1 then k + 1 else k + 1 + 2) = k' + 1
      \<and> (if k + 2 < kv + 1 then k + 2 else k + 2 + 2) = k' + 2"
    by auto
  then show ?thesis
    unfolding first_index_insert2 [OF q ne(1,2)] first_index_insert2 [OF q ne(3,4)]
      first_index_insert2 [OF q ne(5,6)] fa fb fc option.map
    by simp
qed

lemma loc_row_Inr: "loc_row a tbl = Inr row \<Longrightarrow> filter (\<lambda>r. apartment r = a) tbl = [row]"
  by (auto simp: loc_row_def split: list.splits)

lemma set_insert_at: "set (take k xs @ ys @ drop k xs) = set xs \<union> set ys"
proof -
  have "set xs = set (take k xs) \<union> set (drop k xs)"
    by (metis append_take_drop_id set_append)
  then show ?thesis by auto
qed

lemma calculate_one_apartment_Inr:
  assumes ok: "calculate_one_apartment tbl a df = Inr df'"
  shows "\<exists>k row. first_index (a @ '' consumption [kWh]'') (names df) = Some k
           \<and> loc_row a tbl = Inr row
           \<and> a @ '' after PV [kWh]'' \<notin> set (names df)
           \<and> a @ '' value of coverage [c]'' \<notin> set (names df)
           \<and> names df' = take (k + 1) (names df)
                 @ [a @ '' after PV [kWh]'', a @ '' value of coverage [c]''] @ drop (k + 1) (names df)
           \<and> index df' = index df
           \<and> pv_after_company \<in> set (names df)
           \<and> spot_price_median_fees \<in> set (names df)
           \<and> (\<forall>m t. cell_at df' m t =
                (let after = lift2 (-) (cell_at df (a @ '' consumption [kWh]'') t)
                               (lift2 (*) (cell_at df pv_after_company t) (allocation row))
                 in if m = a @ '' value of coverage [c]''
                    then lift2 (*) (cell_at df spot_price_median_fees t)
                           (lift2 (-) (cell_at df (a @ '' consumption [kWh]'') t) after)
                    else if m = a @ '' after PV [kWh]'' then after
                    else cell_at df m t))"
proof -
  let ?cons = "a @ '' consumption [kWh]''"
  let ?after = "a @ '' after PV [kWh]''"
  let ?val = "a @ '' value of coverage [c]''"
  from ok have "\<exists>consumption leftover row fees loc df1.
    getitem ?cons df = Inr consumption
    \<and> getitem pv_after_company df = Inr leftover
    \<and> loc_row a tbl = Inr row
    \<and> getitem spot_price_median_fees df = Inr fees
    \<and> get_loc ?cons df = Inr loc
    \<and> insert_column (loc + 1) ?after
               (series_op (-) consumption (series_scale leftover (allocation row))) df = Inr df1
    \<and> insert_column (loc + 1 + 1) ?val
               (series_op (*) fees (series_op (-) consumption
                  (series_op (-) consumption (series_scale leftover (allocation row))))) df1 = Inr df'"
    by (simp add: calculate_one_apartment_def and_then_Inr_iff Let_def split: if_splits)
  then obtain consumption leftover row fees loc df1 where
    c: "getitem ?cons df = Inr consumption"
    and l: "getitem pv_after_company df = Inr leftover"
    and row: "loc_row a tbl = Inr row"
    and f: "getitem spot_price_median_fees df = Inr fees"
    and loc: "get_loc ?cons df = Inr loc"
    and i1: "insert_column (loc + 1) ?after
               (series_op (-) consumption (series_scale leftover (allocation row))) df = Inr df1"
    and i2: "insert_column (loc + 1 + 1) ?val
               (series_op (*) fees (series_op (-) consumption
                  (series_op (-) consumption (series_scale leftover (allocation row))))) df1 = Inr df'"
    by (elim exE conjE)
  define s1 where "s1 = series_op (-) consumption (series_scale leftover (allocation row))"
  define s2 where "s2 = series_op (*) fees (series_op (-) consumption s1)"
  have fi: "first_index ?cons (names df) = Some loc"
    using loc by (auto simp: get_loc_def split: option.splits)
  have loc_lt: "loc < length (names df)"
    using first_index_Some [OF fi] by simp
  have ix: "sindex consumption = index df" "sindex leftover = index df" "sindex fees = index df"
    using getitem_Inr(1) [OF c] getitem_Inr(1) [OF l] getitem_Inr(1) [OF f] by simp_all
  have six1: "sindex s1 = index df"
    unfolding s1_def by (rule sindex_series_op_same) (simp_all add: ix)
  have six2: "sindex s2 = index df"
    unfolding s2_def
    by (intro sindex_series_op_same) (simp_all add: ix six1)
  have v1: "value_at s1 t = lift2 (-) (cell_at df ?cons t)
              (lift2 (*) (cell_at df pv_after_company t) (allocation row))" for t
    by (simp add: s1_def getitem_Inr(2) [OF c] getitem_Inr(2) [OF l])
  have v2: "value_at s2 t = lift2 (*) (cell_at df spot_price_median_fees t)
              (lift2 (-) (cell_at df ?cons t) (value_at s1 t))" for t
    by (simp add: s2_def getitem_Inr(2) [OF c] getitem_Inr(2) [OF f])
  note a1 = insert_column_Inr [OF i1 [folded s1_def]]
  note a2 = insert_column_Inr [OF i2 [folded s1_def, folded s2_def]]
  have idx1: "index df1 = index df" using a1(4) six1 by auto
  have idx2: "index df' = index df" using a2(4) six2 idx1 by auto
  have out1: "value_at s1 t = None" if "t \<notin> set (index df)" for t
    using that six1 by (simp add: value_at_def)
  have out2: "value_at s2 t = None" if "t \<notin> set (index df)" for t
    using that six2 by (simp add: value_at_def)
  have c1: "cell_at df1 m t = (if m = ?after then value_at s1 t else cell_at df m t)" for m t
    using a1(5) [of m t] out1 [of t] by (auto simp: idx1)
  have c2: "cell_at df' m t = (if m = ?val then value_at s2 t else cell_at df1 m t)" for m t
    using a2(5) [of m t] out2 [of t] by (auto simp: idx2)
  have n1: "names df1 = take (loc + 1) (names df) @ [?after] @ drop (loc + 1) (names df)"
    using a1(3) .
  have "names df' = take (loc + 2) (names df1) @ [?val] @ drop (loc + 2) (names df1)"
    using a2(3) by (simp add: add.commute)
  also have "\<dots> = take (loc + 1) (names df) @ [?after, ?val] @ drop (loc + 1) (names df)"
    using loc_lt by (simp add: n1)
  finally have n2: "names df' = take (loc + 1) (names df) @ [?after, ?val] @ drop (loc + 1) (names df)" .
  have fresh_after: "?after \<notin> set (names df)" using a1(1) .
  have "set (names df1) = set (names df) \<union> set [?after]"
    unfolding n1 by (rule set_insert_at)
  moreover have "?val \<notin> set (names df1)" using a2(1) .
  ultimately have fresh_value: "?val \<notin> set (names df)"
    by simp
  have cells: "cell_at df' m t =
        (let after = lift2 (-) (cell_at df ?cons t)
                       (lift2 (*) (cell_at df pv_after_company t) (allocation row))
         in if m = ?val
            then lift2 (*) (cell_at df spot_price_median_fees t) (lift2 (-) (cell_at df ?cons t) after)
            else if m = ?after then after
            else cell_at df m t)" for m t
    by (simp add: c2 c1 v2 v1 Let_def)
  show ?thesis
  proof (intro exI conjI allI)
    show "first_index ?cons (names df) = Some loc" by (rule fi)
    show "loc_row a tbl = Inr row" by (rule row)
    show "?after \<notin> set (names df)" by (rule fresh_after)
    show "?val \<notin> set (names df)" by (rule fresh_value)
    show "names df' = take (loc + 1) (names df) @ [?after, ?val] @ drop (loc + 1) (names df)"
      by (rule n2)
    show "index df' = index df" by (rule idx2)
    show "pv_after_company \<in> set (names df)" by (rule getitem_Inr(3) [OF l])
    show "spot_price_median_fees \<in> set (names df)" by (rule getitem_Inr(3) [OF f])
    show "cell_at df' m t =
        (let after = lift2 (-) (cell_at df ?cons t)
                       (lift2 (*) (cell_at df pv_after_company t) (allocation row))
         in if m = ?val
            then lift2 (*) (cell_at df spot_price_median_fees t) (lift2 (-) (cell_at df ?cons t) after)
            else if m = ?after then after
            else cell_at df m t)" for m t
      by (rule cells)
  qed
qed


lemma labels_distinct:
  assumes "\<forall>r \<in> set tbl. \<exists>row. loc_row (f r) tbl = Inr row" and "f = apartment"
  shows "distinct (map f tbl)"
proof -
  have one: "length (filter (\<lambda>r'. f r' = f r) tbl) = 1" if "r \<in> set tbl" for r
    using assms that by (auto dest!: loc_row_Inr bspec)
  have "distinct (map f xs)" if "\<forall>r \<in> set xs. length (filter (\<lambda>r'. f r' = f r) xs) \<le> 1" for xs
    using that
  proof (induction xs)
    case Nil
    then show ?case by simp
  next
    case (Cons x xs)
    have "f x \<notin> f ` set xs"
    proof
      assume "f x \<in> f ` set xs"
      then obtain y where y: "y \<in> set xs" "f y = f x" by auto
      then have "filter (\<lambda>r'. f r' = f x) xs \<noteq> []"
        by (auto simp: filter_empty_conv)
      then have "length (filter (\<lambda>r'. f r' = f x) (x # xs)) \<ge> 2"
        by (cases "filter (\<lambda>r'. f r' = f x) xs") simp_all
      with Cons.prems show False by force
    qed
    moreover have "\<forall>r \<in> set xs. length (filter (\<lambda>r'. f r' = f r) xs) \<le> 1"
    proof
      fix r assume r: "r \<in> set xs"
      with Cons.prems have "length (filter (\<lambda>r'. f r' = f r) (x # xs)) \<le> 1" by simp
      then show "length (filter (\<lambda>r'. f r' = f r) xs) \<le> 1"
        by (simp split: if_splits)
    qed
    ultimately show ?case using Cons.IH by simp
  qed
  then show ?thesis using one by simp
qed

lemma calculate_apartments_keeps_all:
  assumes "calculate_apartments tbl us df = Inr F"
  shows "index F = index df \<and> set (names df) \<subseteq> set (names F)
    \<and> (\<forall>m t. m \<in> set (names df) \<longrightarrow> cell_at F m t = cell_at df m t)
    \<and> (\<forall>u \<in> set us. u @ '' after PV [kWh]'' \<notin> set (names df)
           \<and> u @ '' value of coverage [c]'' \<notin> set (names df)
           \<and> (\<exists>row. loc_row u tbl = Inr row))
    \<and> set (names F) \<subseteq> set (names df) \<union> (\<lambda>u. u @ '' after PV [kWh]'') ` set us
           \<union> (\<lambda>u. u @ '' value of coverage [c]'') ` set us"
  using assms
proof (induction us arbitrary: df)
  case Nil
  then show ?case by simp
next
  case (Cons a us)
  from Cons.prems obtain df1 where one: "calculate_one_apartment tbl a df = Inr df1"
    and rest: "calculate_apartments tbl us df1 = Inr F"
    by (auto split: sum.splits)
  from calculate_one_apartment_Inr [OF one] obtain k row where
    row: "loc_row a tbl = Inr row"
    and fa: "a @ '' after PV [kWh]'' \<notin> set (names df)"
    and fv: "a @ '' value of coverage [c]'' \<notin> set (names df)"
    and n1: "names df1 = take (k + 1) (names df)
               @ [a @ '' after PV [kWh]'', a @ '' value of coverage [c]''] @ drop (k + 1) (names df)"
    and i1: "index df1 = index df"
    and c1: "\<And>m t. m \<noteq> a @ '' value of coverage [c]'' \<Longrightarrow> m \<noteq> a @ '' after PV [kWh]''
               \<Longrightarrow> cell_at df1 m t = cell_at df m t"
    by (auto simp: Let_def)
  note ih = Cons.IH [OF rest]
  have sub: "set (names df1) = set (names df) \<union> {a @ '' after PV [kWh]'', a @ '' value of coverage [c]''}"
    unfolding n1 by (simp only: set_insert_at) auto
  have "index F = index df"
    using ih i1 by simp
  moreover have "set (names df) \<subseteq> set (names F)"
    using ih sub by auto
  moreover have "cell_at F m t = cell_at df m t" if "m \<in> set (names df)" for m t
  proof -
    from that fa fv have "m \<noteq> a @ '' value of coverage [c]''" "m \<noteq> a @ '' after PV [kWh]''"
      by auto
    then have "cell_at df1 m t = cell_at df m t" by (rule c1)
    moreover have "m \<in> set (names df1)" using that sub by simp
    ultimately show ?thesis using ih by simp
  qed
  moreover have "u @ '' after PV [kWh]'' \<notin> set (names df)
         \<and> u @ '' value of coverage [c]'' \<notin> set (names df)
         \<and> (\<exists>row. loc_row u tbl = Inr row)" if "u \<in> set (a # us)" for u
  proof (cases "u = a")
    case True
    then show ?thesis using fa fv row by simp
  next
    case False
    with that have "u \<in> set us" by simp
    with ih sub show ?thesis by auto
  qed
  moreover have "set (names F) \<subseteq> set (names df) \<union> (\<lambda>u. u @ '' after PV [kWh]'') ` set (a # us)
           \<union> (\<lambda>u. u @ '' value of coverage [c]'') ` set (a # us)"
    using ih sub by auto
  ultimately show ?case by blast
qed

lemma calculate_apartments_keeps:
  assumes "calculate_apartments tbl us df = Inr F"
  shows "index F = index df"
    and "set (names df) \<subseteq> set (names F)"
    and "m \<in> set (names df) \<Longrightarrow> cell_at F m t = cell_at df m t"
    and "u \<in> set us \<Longrightarrow> u @ '' after PV [kWh]'' \<notin> set (names df)
           \<and> u @ '' value of coverage [c]'' \<notin> set (names df)
           \<and> (\<exists>row. loc_row u tbl = Inr row)"
    and "set (names F) \<subseteq> set (names df) \<union> (\<lambda>u. u @ '' after PV [kWh]'') ` set us
           \<union> (\<lambda>u. u @ '' value of coverage [c]'') ` set us"
  using calculate_apartments_keeps_all [OF assms] by blast+

lemma calculate_apartments_block_kept:
  assumes "calculate_apartments tbl us df = Inr F"
    and "first_index a (names df) = Some k"
    and "first_index b (names df) = Some (k + 1)"
    and "first_index c (names df) = Some (k + 2)"
    and "\<forall>v \<in> set us. a \<noteq> v @ '' consumption [kWh]'' \<and> b \<noteq> v @ '' consumption [kWh]''"
  shows "\<exists>k'. first_index a (names F) = Some k' \<and> first_index b (names F) = Some (k' + 1)
           \<and> first_index c (names F) = Some (k' + 2)"
  using assms
proof (induction us arbitrary: df k)
  case Nil
  then show ?case by auto
next
  case (Cons v us)
  from Cons.prems(1) obtain df1 where one: "calculate_one_apartment tbl v df = Inr df1"
    and rest: "calculate_apartments tbl us df1 = Inr F"
    by (auto split: sum.splits)
  from calculate_one_apartment_Inr [OF one] obtain kv where
    fv: "first_index (v @ '' consumption [kWh]'') (names df) = Some kv"
    and fresh: "v @ '' after PV [kWh]'' \<notin> set (names df)" "v @ '' value of coverage [c]'' \<notin> set (names df)"
    and n1: "names df1 = take (kv + 1) (names df)
               @ [v @ '' after PV [kWh]'', v @ '' value of coverage [c]''] @ drop (kv + 1) (names df)"
    by auto
  have diff: "a \<noteq> v @ '' consumption [kWh]''" "b \<noteq> v @ '' consumption [kWh]''"
    using Cons.prems(5) by simp_all
  from block_step [OF Cons.prems(2,3,4) fv fresh diff] obtain k' where
    "first_index a (names df1) = Some k'" "first_index b (names df1) = Some (k' + 1)"
    "first_index c (names df1) = Some (k' + 2)"
    unfolding n1 by blast
  moreover have "\<forall>v \<in> set us. a \<noteq> v @ '' consumption [kWh]'' \<and> b \<noteq> v @ '' consumption [kWh]''"
    using Cons.prems(5) by simp
  ultimately show ?case
    using Cons.IH [OF rest] by blast
qed

lemma calculate_apartments_units:
  assumes "calculate_apartments tbl us df = Inr F" and "distinct us" and "u \<in> set us"
  shows "\<exists>k row. loc_row u tbl = Inr row
           \<and> first_index (u @ '' consumption [kWh]'') (names F) = Some k
           \<and> first_index (u @ '' after PV [kWh]'') (names F) = Some (k + 1)
           \<and> first_index (u @ '' value of coverage [c]'') (names F) = Some (k + 2)
           \<and> (\<forall>t. cell_at F (u @ '' after PV [kWh]'') t
                    = lift2 (-) (cell_at F (u @ '' consumption [kWh]'') t)
                        (lift2 (*) (cell_at F pv_after_company t) (allocation row))
                  \<and> cell_at F (u @ '' value of coverage [c]'') t
                    = lift2 (*) (cell_at F spot_price_median_fees t)
                        (lift2 (-) (cell_at F (u @ '' consumption [kWh]'') t)
                           (cell_at F (u @ '' after PV [kWh]'') t)))"
  using assms
proof (induction us arbitrary: df)
  case Nil
  then show ?case by simp
next
  case (Cons a us)
  from Cons.prems(1) obtain df1 where one: "calculate_one_apartment tbl a df = Inr df1"
    and rest: "calculate_apartments tbl us df1 = Inr F"
    by (auto split: sum.splits)
  show ?case
  proof (cases "u = a")
    case False
    with Cons.prems have "distinct us" "u \<in> set us" by simp_all
    from Cons.IH [OF rest this] show ?thesis .
  next
    case True
    let ?cons = "a @ '' consumption [kWh]''"
    let ?after = "a @ '' after PV [kWh]''"
    let ?val = "a @ '' value of coverage [c]''"
    from calculate_one_apartment_Inr [OF one] obtain k row where
      fi: "first_index ?cons (names df) = Some k"
      and row: "loc_row a tbl = Inr row"
      and fa: "?after \<notin> set (names df)"
      and fv: "?val \<notin> set (names df)"
      and n1: "names df1 = take (k + 1) (names df) @ [?after, ?val] @ drop (k + 1) (names df)"
      and pv: "pv_after_company \<in> set (names df)"
      and fees: "spot_price_median_fees \<in> set (names df)"
      and c1: "\<And>m t. cell_at df1 m t =
                (let after = lift2 (-) (cell_at df ?cons t)
                               (lift2 (*) (cell_at df pv_after_company t) (allocation row))
                 in if m = ?val
                    then lift2 (*) (cell_at df spot_price_median_fees t)
                           (lift2 (-) (cell_at df ?cons t) after)
                    else if m = ?after then after
                    else cell_at df m t)"
      by blast
    have q: "k + 1 \<le> length (names df)"
      using first_index_Some [OF fi] by simp
    have cons_in: "?cons \<in> set (names df)"
      using fi first_index_None_iff [of ?cons "names df"] by auto
    have ne: "?cons \<noteq> ?after" "?cons \<noteq> ?val" "?after \<noteq> ?val"
      "pv_after_company \<noteq> ?after" "pv_after_company \<noteq> ?val"
      "spot_price_median_fees \<noteq> ?after" "spot_price_median_fees \<noteq> ?val"
      using fa fv cons_in pv fees by auto
    have b1: "first_index ?cons (names df1) = Some k"
      unfolding n1 by (simp only: first_index_insert2 [OF q ne(1,2)] fi) simp
    have b2: "first_index ?after (names df1) = Some (k + 1)"
      unfolding n1 by (rule first_index_inserted(1) [OF q fa fv ne(3)])
    have b3: "first_index ?val (names df1) = Some (k + 2)"
      unfolding n1 using first_index_inserted(2) [OF q fa fv ne(3)] by simp
    have others: "\<forall>v \<in> set us. ?cons \<noteq> v @ '' consumption [kWh]'' \<and> ?after \<noteq> v @ '' consumption [kWh]''"
      using Cons.prems(2) consumption_not_after by (metis append_same_eq distinct.simps(2))
    from calculate_apartments_block_kept [OF rest b1 b2 b3 others] obtain k' where
      blk: "first_index ?cons (names F) = Some k'" "first_index ?after (names F) = Some (k' + 1)"
        "first_index ?val (names F) = Some (k' + 2)"
      by blast
    have sub: "set (names df1) = set (names df) \<union> {?after, ?val}"
      unfolding n1 by (simp only: set_insert_at) auto
    have in1: "?cons \<in> set (names df1)" "?after \<in> set (names df1)" "?val \<in> set (names df1)"
      "pv_after_company \<in> set (names df1)" "spot_price_median_fees \<in> set (names df1)"
      using cons_in pv fees by (simp_all add: sub)
    note keep = calculate_apartments_keeps(3) [OF rest]
    have d1: "cell_at df1 ?cons t = cell_at df ?cons t"
      "cell_at df1 pv_after_company t = cell_at df pv_after_company t"
      "cell_at df1 spot_price_median_fees t = cell_at df spot_price_median_fees t"
      "cell_at df1 ?after t = lift2 (-) (cell_at df ?cons t)
                               (lift2 (*) (cell_at df pv_after_company t) (allocation row))"
      "cell_at df1 ?val t = lift2 (*) (cell_at df spot_price_median_fees t)
                           (lift2 (-) (cell_at df ?cons t) (lift2 (-) (cell_at df ?cons t)
                               (lift2 (*) (cell_at df pv_after_company t) (allocation row))))" for t
      using ne by (simp_all add: c1 Let_def)
    have cells: "cell_at F ?after t
                    = lift2 (-) (cell_at F ?cons t)
                        (lift2 (*) (cell_at F pv_after_company t) (allocation row))
                  \<and> cell_at F ?val t
                    = lift2 (*) (cell_at F spot_price_median_fees t)
                        (lift2 (-) (cell_at F ?cons t) (cell_at F ?after t))" for t
      by (simp only: keep [OF in1(1)] keep [OF in1(2)] keep [OF in1(3)] keep [OF in1(4)]
          keep [OF in1(5)] d1)
    show ?thesis
      unfolding True using row blk cells by blast
  qed
qed

section \<open>The per-apartment columns\<close>

lemma calculate_apartment_try_Inr:
  assumes "calculate_apartment_try self = Inr (F, tbl, P)"
  shows "resolve_apartments self = Inr tbl"
    and "\<exists>D. add_apartment_profiles self tbl (map apartment tbl) (calculate_company self, empty_frame) = Inr (D, P)
           \<and> calculate_apartments tbl (map apartment tbl) D = Inr F"
    and "distinct (map apartment tbl)"
proof -
  from assms obtain D where
    r: "resolve_apartments self = Inr tbl"
    and a: "add_apartment_profiles self tbl (map apartment tbl) (calculate_company self, empty_frame) = Inr (D, P)"
    and c: "calculate_apartments tbl (map apartment tbl) D = Inr F"
    by (auto simp: calculate_apartment_try_def add_apartment_consumption_try_def and_then_Inr_iff Let_def)
  show "resolve_apartments self = Inr tbl" by (rule r)
  show "\<exists>D. add_apartment_profiles self tbl (map apartment tbl) (calculate_company self, empty_frame) = Inr (D, P)
           \<and> calculate_apartments tbl (map apartment tbl) D = Inr F"
    using a c by blast
  have "\<forall>r \<in> set tbl. \<exists>row. loc_row (apartment r) tbl = Inr row"
    using calculate_apartments_keeps(4) [OF c] by auto
  then show "distinct (map apartment tbl)"
    by (rule labels_distinct) simp
qed

lemma calculate_apartment_cases:
  obtains (failed) "calculate_apartment self = empty_frame"
  | (ok) tbl P where "calculate_apartment_try self = Inr (calculate_apartment self, tbl, P)"
  by (cases "calculate_apartment_try self") (auto simp: calculate_apartment_def)

lemma names_empty_frame [simp]: "names empty_frame = []"
  by (simp add: names_def empty_frame_def)

lemma index_empty_frame [simp]: "index empty_frame = []"
  by (simp add: empty_frame_def)

text \<open>
  C4: in the frame that \<open>calculate_apartment\<close> returns, for every unit of the resolved
  table, the after-PV column and the value column stand at the two positions right after
  the unit's consumption column; in every row the after-PV cell is
  consumption - leftover * weight, without clipping, and the value cell is
  price with fees * (consumption - after).
\<close>

theorem C4_apartment_columns:
  assumes "resolve_apartments self = Inr tbl" and "row \<in> set tbl"
    and "names (calculate_apartment self) \<noteq> []"
  shows "\<exists>k. get_loc (apartment row @ '' consumption [kWh]'') (calculate_apartment self) = Inr k
     \<and> get_loc (apartment row @ '' after PV [kWh]'') (calculate_apartment self) = Inr (k + 1)
     \<and> get_loc (apartment row @ '' value of coverage [c]'') (calculate_apartment self) = Inr (k + 2)
     \<and> (\<forall>t. cell_at (calculate_apartment self) (apartment row @ '' after PV [kWh]'') t
               = lift2 (-) (cell_at (calculate_apartment self) (apartment row @ '' consumption [kWh]'') t)
                   (lift2 (*) (cell_at (calculate_apartment self) pv_after_company t) (allocation row))
            \<and> cell_at (calculate_apartment self) (apartment row @ '' value of coverage [c]'') t
               = lift2 (*) (cell_at (calculate_apartment self) spot_price_median_fees t)
                   (lift2 (-) (cell_at (calculate_apartment self) (apartment row @ '' consumption [kWh]'') t)
                      (cell_at (calculate_apartment self) (apartment row @ '' after PV [kWh]'') t)))"
proof (cases self rule: calculate_apartment_cases)
  case failed
  with assms(3) show ?thesis by simp
next
  case (ok tbl' P)
  let ?F = "calculate_apartment self"
  have tbl': "tbl' = tbl"
    using calculate_apartment_try_Inr(1) [OF ok] assms(1) by simp
  from calculate_apartment_try_Inr(2) [OF ok] obtain D where
    c: "calculate_apartments tbl (map apartment tbl) D = Inr ?F"
    by (auto simp: tbl')
  have d: "distinct (map apartment tbl)"
    using calculate_apartment_try_Inr(3) [OF ok] by (simp add: tbl')
  have u: "apartment row \<in> set (map apartment tbl)"
    using assms(2) by simp
  from calculate_apartments_units [OF c d u] obtain k row' where
    row': "loc_row (apartment row) tbl = Inr row'"
    and blk: "first_index (apartment row @ '' consumption [kWh]'') (names ?F) = Some k"
      "first_index (apartment row @ '' after PV [kWh]'') (names ?F) = Some (k + 1)"
      "first_index (apartment row @ '' value of coverage [c]'') (names ?F) = Some (k + 2)"
    and cells: "\<forall>t. cell_at ?F (apartment row @ '' after PV [kWh]'') t
               = lift2 (-) (cell_at ?F (apartment row @ '' consumption [kWh]'') t)
                   (lift2 (*) (cell_at ?F pv_after_company t) (allocation row'))
            \<and> cell_at ?F (apartment row @ '' value of coverage [c]'') t
               = lift2 (*) (cell_at ?F spot_price_median_fees t)
                   (lift2 (-) (cell_at ?F (apartment row @ '' consumption [kWh]'') t)
                      (cell_at ?F (apartment row @ '' after PV [kWh]'') t))"
    by blast
  have "row \<in> set (filter (\<lambda>r. apartment r = apartment row) tbl)"
    using assms(2) by simp
  then have "row' = row"
    using loc_row_Inr [OF row'] by simp
  with blk cells show ?thesis
    by (auto simp: get_loc_def)
qed

theorem C4_apartment_columns_witness:
  "resolve_apartments demo_single
     = Inr [\<lparr>apartment = ''U'', allocation = Some 1, profile = ''U_consumption.csv'', amount = None\<rparr>]
   \<and> names (calculate_apartment demo_single) \<noteq> []
   \<and> get_loc ''U consumption [kWh]'' (calculate_apartment demo_single) = Inr 7
   \<and> get_loc ''U after PV [kWh]'' (calculate_apartment demo_single) = Inr 8
   \<and> get_loc ''U value of coverage [c]'' (calculate_apartment demo_single) = Inr 9
   \<and> cell_at (calculate_apartment demo_single) ''U consumption [kWh]'' 0 = Some 3
   \<and> cell_at (calculate_apartment demo_single) pv_after_company 0 = Some 6
   \<and> cell_at (calculate_apartment demo_single) spot_price_median_fees 0 = Some 5
   \<and> cell_at (calculate_apartment demo_single) ''U after PV [kWh]'' 0 = Some (- 3)
   \<and> cell_at (calculate_apartment demo_single) ''U value of coverage [c]'' 0 = Some 30"
proof -
  let ?row = "\<lparr>apartment = ''U'', allocation = Some 1, profile = ''U_consumption.csv'', amount = None\<rparr>"
  have h: "resolve_apartments demo_single = Inr [?row]" "?row \<in> set [?row]"
    "names (calculate_apartment demo_single) \<noteq> []"
    by code_simp+
  have given: "get_loc ''U consumption [kWh]'' (calculate_apartment demo_single) = Inr 7"
    "cell_at (calculate_apartment demo_single) ''U consumption [kWh]'' 0 = Some 3"
    "cell_at (calculate_apartment demo_single) pv_after_company 0 = Some 6"
    "cell_at (calculate_apartment demo_single) spot_price_median_fees 0 = Some 5"
    by code_simp+
  from C4_apartment_columns [OF h] given h show ?thesis
    by (auto simp: lift2_def)
qed

section \<open>The loop of add_apartment_consumption\<close>

lemma add_apartment_profile_Inr:
  assumes "add_apartment_profile self tbl a (D, P) = Inr (D', P')"
  shows "names P' = (if a @ '' consumption [kWh]'' \<in> set (names P) then names P
                     else names P @ [a @ '' consumption [kWh]''])"
    and "names D' = (if a @ '' consumption [kWh]'' \<in> set (names D) then names D
                     else names D @ [a @ '' consumption [kWh]''])"
    and "index P' \<noteq> [] \<or> index P = []"
    and "index D' = (if index D = [] then index P' else index D)"
    and "index P \<noteq> [] \<Longrightarrow> index P' = index P"
    and "m \<noteq> a @ '' consumption [kWh]'' \<Longrightarrow> cell_at P' m t = cell_at P m t"
    and "m \<noteq> a @ '' consumption [kWh]'' \<Longrightarrow> cell_at D' m t = cell_at D m t"
    and "cell_at D' (a @ '' consumption [kWh]'') t
           = (if t \<in> set (index D') then cell_at P' (a @ '' consumption [kWh]'') t else None)"
proof -
  let ?cons = "a @ '' consumption [kWh]''"
  from assms have "\<exists>row loaded column. loc_row a tbl = Inr row
      \<and> load_profile self (profile row) = Inr loaded
      \<and> getitem ?cons (setitem ?cons loaded P) = Inr column
      \<and> setitem ?cons column D = D' \<and> setitem ?cons loaded P = P'"
    by (simp add: add_apartment_profile_def and_then_Inr_iff Let_def)
  then obtain row loaded column where
    col: "getitem ?cons (setitem ?cons loaded P) = Inr column"
    and D0: "setitem ?cons column D = D'" and P0: "setitem ?cons loaded P = P'"
    by (elim exE conjE)
  have D': "D' = setitem ?cons column D" and P': "P' = setitem ?cons loaded P"
    using D0 P0 by simp_all
  have col': "getitem ?cons P' = Inr column" using col by (simp add: P')
  show "names P' = (if ?cons \<in> set (names P) then names P else names P @ [?cons])"
    by (simp add: P' names_setitem)
  show "names D' = (if ?cons \<in> set (names D) then names D else names D @ [?cons])"
    by (simp add: D' names_setitem)
  show "index P' \<noteq> [] \<or> index P = []"
    by (simp add: P' index_setitem)
  show "index D' = (if index D = [] then index P' else index D)"
    by (simp add: D' index_setitem getitem_Inr(1) [OF col'])
  show "index P' = index P" if "index P \<noteq> []"
    using that by (simp add: P' index_setitem)
  show "cell_at P' m t = cell_at P m t" if "m \<noteq> ?cons"
    using that by (simp add: P' cell_at_setitem)
  show "cell_at D' m t = cell_at D m t" if "m \<noteq> ?cons"
    using that by (simp add: D' cell_at_setitem)
  show "cell_at D' ?cons t = (if t \<in> set (index D') then cell_at P' ?cons t else None)"
    by (simp add: D' cell_at_setitem getitem_Inr(2) [OF col'])
qed

lemma add_apartment_profiles_Inr:
  assumes "add_apartment_profiles self tbl us (D, P) = Inr (D', P')"
    and "distinct us"
    and "index D = [] \<longrightarrow> index P = []"
  shows "(index D' = [] \<longrightarrow> index P' = [])
    \<and> (index D \<noteq> [] \<longrightarrow> index D' = index D)
    \<and> (\<forall>m t. m \<notin> (\<lambda>u. u @ '' consumption [kWh]'') ` set us \<longrightarrow>
           cell_at D' m t = cell_at D m t \<and> cell_at P' m t = cell_at P m t)
    \<and> (\<forall>u \<in> set us. \<forall>t. cell_at D' (u @ '' consumption [kWh]'') t
           = (if t \<in> set (index D') then cell_at P' (u @ '' consumption [kWh]'') t else None))
    \<and> ((\<forall>u \<in> set us. u @ '' consumption [kWh]'' \<notin> set (names P)) \<longrightarrow>
           names P' = names P @ map (\<lambda>u. u @ '' consumption [kWh]'') us)
    \<and> ((\<forall>u \<in> set us. u @ '' consumption [kWh]'' \<notin> set (names D)) \<longrightarrow>
           names D' = names D @ map (\<lambda>u. u @ '' consumption [kWh]'') us)
    \<and> set (names D) \<subseteq> set (names D')
    \<and> (\<forall>u \<in> set us. u @ '' consumption [kWh]'' \<in> set (names D'))
    \<and> set (names D') \<subseteq> set (names D) \<union> (\<lambda>u. u @ '' consumption [kWh]'') ` set us"
  using assms
proof (induction us arbitrary: D P)
  case Nil
  then show ?case by simp
next
  case (Cons a us)
  let ?c = "\<lambda>u. u @ '' consumption [kWh]''"
  from Cons.prems(1) obtain D1 P1 where
    one: "add_apartment_profile self tbl a (D, P) = Inr (D1, P1)"
    and rest: "add_apartment_profiles self tbl us (D1, P1) = Inr (D', P')"
    by (auto split: sum.splits)
  note s = add_apartment_profile_Inr [OF one]
  have dus: "distinct us" and a_us: "a \<notin> set us"
    using Cons.prems(2) by simp_all
  have inv1: "index D1 = [] \<longrightarrow> index P1 = []"
    using s(3,4) Cons.prems(3) by (auto split: if_splits)
  note ih = Cons.IH [OF rest dus inv1]
  have a_not: "?c a \<notin> ?c ` set us"
    using a_us by auto
  have keepD: "index D \<noteq> [] \<longrightarrow> index D' = index D"
    using ih s(4) by auto
  have others: "cell_at D' m t = cell_at D m t \<and> cell_at P' m t = cell_at P m t"
    if "m \<notin> ?c ` set (a # us)" for m t
  proof -
    from that have "m \<noteq> ?c a" "m \<notin> ?c ` set us" by auto
    with ih s(6) [of m t] s(7) [of m t] show ?thesis by simp
  qed
  have cols: "cell_at D' (?c u) t = (if t \<in> set (index D') then cell_at P' (?c u) t else None)"
    if "u \<in> set (a # us)" for u t
  proof (cases "u = a")
    case False
    with that ih show ?thesis by simp
  next
    case True
    have kD: "cell_at D' (?c a) t = cell_at D1 (?c a) t" and kP: "cell_at P' (?c a) t = cell_at P1 (?c a) t"
      using ih a_not by simp_all
    show ?thesis
    proof (cases "index D1 = []")
      case True
      with inv1 have "index P1 = []" by simp
      then have "cell_at P1 (?c a) t = None" "cell_at D1 (?c a) t = None"
        using True by (simp_all add: cell_at_outside)
      then show ?thesis using kD kP \<open>u = a\<close> by simp
    next
      case False
      with ih have "index D' = index D1" by simp
      then show ?thesis using kD kP s(8) [of t] \<open>u = a\<close> by simp
    qed
  qed
  have namesP: "names P' = names P @ map ?c (a # us)"
    if "\<forall>u \<in> set (a # us). ?c u \<notin> set (names P)"
  proof -
    from that have "names P1 = names P @ [?c a]" using s(1) by simp
    moreover have "\<forall>u \<in> set us. ?c u \<notin> set (names P1)"
      using that a_us s(1) by auto
    ultimately show ?thesis using ih by simp
  qed
  have namesD: "names D' = names D @ map ?c (a # us)"
    if "\<forall>u \<in> set (a # us). ?c u \<notin> set (names D)"
  proof -
    from that have "names D1 = names D @ [?c a]" using s(2) by simp
    moreover have "\<forall>u \<in> set us. ?c u \<notin> set (names D1)"
      using that a_us s(2) by auto
    ultimately show ?thesis using ih by simp
  qed
  have subD: "set (names D) \<subseteq> set (names D')"
    using ih s(2) by (auto split: if_splits)
  have inD: "\<forall>u \<in> set (a # us). ?c u \<in> set (names D')"
  proof -
    have "?c a \<in> set (names D1)" using s(2) by (auto split: if_splits)
    with ih show ?thesis by auto
  qed
  have supD: "set (names D') \<subseteq> set (names D) \<union> ?c ` set (a # us)"
    using ih s(2) by (auto split: if_splits)
  show ?case
    using ih keepD others cols namesP namesD subD inD supD by blast
qed

section \<open>Rounding\<close>

lemma round_half_even_mono:
  assumes "x \<le> y"
  shows "round_half_even x \<le> round_half_even y"
proof -
  have fl: "\<lfloor>x\<rfloor> \<le> \<lfloor>y\<rfloor>" using assms by (rule floor_mono)
  have lo: "\<lfloor>z\<rfloor> \<le> round_half_even z" and hi: "round_half_even z \<le> \<lfloor>z\<rfloor> + 1" for z :: real
    by (simp_all add: round_half_even_def Let_def)
  show ?thesis
  proof (cases "\<lfloor>x\<rfloor> = \<lfloor>y\<rfloor>")
    case False
    with fl have "\<lfloor>x\<rfloor> + 1 \<le> \<lfloor>y\<rfloor>" by simp
    with hi [of x] lo [of y] show ?thesis by linarith
  next
    case True
    then have "x - of_int \<lfloor>x\<rfloor> \<le> y - of_int \<lfloor>y\<rfloor>" using assms by simp
    then show ?thesis
      using True by (auto simp: round_half_even_def Let_def)
  qed
qed

lemma round_decimals_mono: "x \<le> y \<Longrightarrow> round_decimals k x \<le> round_decimals k y"
  by (simp add: round_decimals_def round_half_even_mono divide_right_mono mult_right_mono)

lemma round_decimals_zero [simp]: "round_decimals k 0 = 0"
  by (simp add: round_decimals_def round_half_even_def)


section \<open>The monetary totals\<close>



section \<open>The grid surplus\<close>

lemma apartment_stage_facts:
  assumes ok: "calculate_apartment_try self = Inr (F, tbl, P)"
  shows "distinct (map apartment tbl)"
    and "names P = map (\<lambda>u. u @ '' consumption [kWh]'') (map apartment tbl)"
    and "u \<in> set (map apartment tbl) \<Longrightarrow>
           cell_at F (u @ '' consumption [kWh]'') t
             = (if t \<in> set (index F) then cell_at P (u @ '' consumption [kWh]'') t else None)"
    and "set (names (calculate_company self)) \<subseteq> set (names F)"
    and "set (names F) \<subseteq> set (names (calculate_company self))
           \<union> (\<lambda>u. u @ '' consumption [kWh]'') ` set (map apartment tbl)
           \<union> (\<lambda>u. u @ '' after PV [kWh]'') ` set (map apartment tbl)
           \<union> (\<lambda>u. u @ '' value of coverage [c]'') ` set (map apartment tbl)"
proof -
  let ?us = "map apartment tbl"
  let ?D0 = "calculate_company self"
  from calculate_apartment_try_Inr(2) [OF ok] obtain D where
    a: "add_apartment_profiles self tbl ?us (?D0, empty_frame) = Inr (D, P)"
    and c: "calculate_apartments tbl ?us D = Inr F"
    by blast
  show d: "distinct ?us" by (rule calculate_apartment_try_Inr(3) [OF ok])
  have "index ?D0 = [] \<longrightarrow> index (empty_frame :: (string, 'a) frame) = []" by simp
  note al = add_apartment_profiles_Inr [OF a d this]
  note ck = calculate_apartments_keeps [OF c]
  show "names P = map (\<lambda>u. u @ '' consumption [kWh]'') ?us"
    using al by simp
  show "cell_at F (u @ '' consumption [kWh]'') t
          = (if t \<in> set (index F) then cell_at P (u @ '' consumption [kWh]'') t else None)"
    if "u \<in> set ?us"
  proof -
    from that al have "u @ '' consumption [kWh]'' \<in> set (names D)" by blast
    then have "cell_at F (u @ '' consumption [kWh]'') t = cell_at D (u @ '' consumption [kWh]'') t"
      by (rule ck(3))
    moreover have "cell_at D (u @ '' consumption [kWh]'') t
          = (if t \<in> set (index D) then cell_at P (u @ '' consumption [kWh]'') t else None)"
      using that al by blast
    ultimately show ?thesis by (simp only: ck(1))
  qed
  show "set (names ?D0) \<subseteq> set (names F)"
    using al ck(2) by blast
  show "set (names F) \<subseteq> set (names ?D0)
           \<union> (\<lambda>u. u @ '' consumption [kWh]'') ` set ?us
           \<union> (\<lambda>u. u @ '' after PV [kWh]'') ` set ?us
           \<union> (\<lambda>u. u @ '' value of coverage [c]'') ` set ?us"
    using al ck(5) by blast
qed

lemma cell_at_Some_name: "cell_at df n t = Some x \<Longrightarrow> n \<in> set (names df) \<and> t \<in> set (index df)"
  by (auto simp: cell_at_alt names_def split: option.splits if_splits dest: map_of_SomeD
      intro: rev_image_eqI)

lemma sum_axis1_at:
  assumes "distinct (names P)" and "t \<in> set (index P)"
  shows "value_at (sum_axis1 P) t = Some (sum_list (map (\<lambda>n. nan_to_zero (cell_at P n t)) (names P)))"
proof -
  have "map (\<lambda>(n, f). nan_to_zero (f t)) (columns P)
          = map (\<lambda>(n, f). nan_to_zero (cell_at P n t)) (columns P)"
  proof (rule map_cong [OF refl])
    fix c assume c: "c \<in> set (columns P)"
    obtain n f where nf: "c = (n, f)" by (cases c)
    have "map_of (columns P) n = Some f"
      using assms(1) c nf by (simp add: names_def)
    then show "(case c of (n, f) \<Rightarrow> nan_to_zero (f t)) = (case c of (n, f) \<Rightarrow> nan_to_zero (cell_at P n t))"
      using assms(2) by (simp add: nf cell_at_alt)
  qed
  also have "\<dots> = map (\<lambda>n. nan_to_zero (cell_at P n t)) (names P)"
    by (simp add: names_def comp_def case_prod_unfold)
  finally show ?thesis
    using assms(2) by (simp add: sum_axis1_def value_at_def)
qed

lemma company_stage_names:
  assumes "names (calculate_company self) \<noteq> []"
  shows "{company_column, production_column, spot_price_median, spot_price_median_fees,
          company_after_pv, value_after_subtraction, pv_after_company}
           \<subseteq> set (names (calculate_company self))"
proof (cases self rule: calculate_company_cases)
  case failed
  with assms show ?thesis by simp
next
  case ok
  from calculate_company_try_Inr(3,4) [OF ok] show ?thesis
    by (auto simp: Let_def split: if_splits)
qed

text \<open>
  C7, as stated: in a row of the produced frame whose production, company consumption and
  unit consumption are not negative, the surplus column equals
  max(production - (company + units), 0) and the value column equals price * surplus. The
  produced frame is rounded to 3 decimals, column by column, and the equalities do not
  survive that: with production 0.0016 and company consumption 0.0004 the frame shows
  production 0.002, consumption 0, surplus 0.001 and, at 4 c/kWh, the value 0.005.
\<close>

theorem C7_rounding_counterexample:
  "cell_at (calculate_pv_over_production demo_small) production_column 0 = Some (2 / 1000)
   \<and> cell_at (calculate_pv_over_production demo_small) company_column 0 = Some 0
   \<and> cell_at (calculate_pv_over_production demo_small) ''U consumption [kWh]'' 0 = Some 0
   \<and> cell_at (calculate_pv_over_production demo_small) spot_price_median 0 = Some 4
   \<and> cell_at (calculate_pv_over_production demo_small) pv_over_production 0 = Some (1 / 1000)
   \<and> cell_at (calculate_pv_over_production demo_small) value_to_grid 0 = Some (5 / 1000)
   \<and> (1 / 1000 :: real) \<noteq> max (2 / 1000 - (0 + 0)) 0
   \<and> (5 / 1000 :: real) \<noteq> 4 * (1 / 1000)"
  by code_simp

text \<open>
  C7, amended: with at least one unit, in every row whose production, company consumption
  and unit consumptions are present and not negative in the frame before the final
  rounding, the surplus column of the produced frame is
  max(production - (company + units), 0) of those values rounded to 3 decimals; it is not
  negative and does not exceed the production column of the produced frame; the value
  column is the median price without fees times that surplus, rounded to 3 decimals.
\<close>

theorem C7_grid_surplus:
  assumes tbl: "resolve_apartments self = Inr tbl" and ne: "tbl \<noteq> []"
    and p: "cell_at (calculate_apartment self) production_column t = Some p" and p0: "0 \<le> p"
    and c: "cell_at (calculate_apartment self) company_column t = Some c" and c0: "0 \<le> c"
    and x: "\<forall>r \<in> set tbl.
              cell_at (calculate_apartment self) (apartment r @ '' consumption [kWh]'') t = Some (x (apartment r))
              \<and> 0 \<le> x (apartment r)"
  shows "cell_at (calculate_pv_over_production self) pv_over_production t
           = Some (round_decimals 3 (max (p - (c + sum_list (map (x \<circ> apartment) tbl))) 0))
    \<and> cell_at (calculate_pv_over_production self) production_column t = Some (round_decimals 3 p)
    \<and> 0 \<le> round_decimals 3 (max (p - (c + sum_list (map (x \<circ> apartment) tbl))) 0)
    \<and> round_decimals 3 (max (p - (c + sum_list (map (x \<circ> apartment) tbl))) 0) \<le> round_decimals 3 p
    \<and> cell_at (calculate_pv_over_production self) value_to_grid t
           = map_option (round_decimals 3)
               (lift2 (*) (Some (max (p - (c + sum_list (map (x \<circ> apartment) tbl))) 0))
                  (cell_at (calculate_apartment self) spot_price_median t))"
proof (cases self rule: calculate_apartment_cases)
  case failed
  with p show ?thesis by (simp add: cell_at_outside)
next
  case (ok tbl' P)
  let ?F = "calculate_apartment self"
  let ?S = "sum_list (map (x \<circ> apartment) tbl)"
  let ?surplus = "max (p - (c + ?S)) 0"
  note d = column_names_distinct
  have tbl': "tbl' = tbl"
    using calculate_apartment_try_Inr(1) [OF ok] tbl by simp
  note facts = apartment_stage_facts [OF ok [unfolded tbl']]
  have t: "t \<in> set (index ?F)" and prod_in: "production_column \<in> set (names ?F)"
    using cell_at_Some_name [OF p] by simp_all
  have comp_in: "company_column \<in> set (names ?F)"
    using cell_at_Some_name [OF c] by simp
  have "production_column \<in> set (names (calculate_company self))"
  proof -
    have "production_column \<noteq> u @ '' consumption [kWh]''"
      "production_column \<noteq> u @ '' after PV [kWh]''"
      "production_column \<noteq> u @ '' value of coverage [c]''" for u
      using fixed_columns_not_unit [of production_column u] d by auto
    with prod_in facts(5) show ?thesis by auto
  qed
  then have "names (calculate_company self) \<noteq> []" by auto
  from company_stage_names [OF this] facts(4)
  have median_in: "spot_price_median \<in> set (names ?F)" by auto
  have unit_cells: "cell_at P (apartment r @ '' consumption [kWh]'') t = Some (x (apartment r))"
    if "r \<in> set tbl" for r
  proof -
    have "apartment r \<in> set (map apartment tbl)" using that by simp
    from facts(3) [OF this, of t] t x that show ?thesis by simp
  qed
  obtain r1 where "r1 \<in> set tbl" using ne by (cases tbl) auto
  from cell_at_Some_name [OF unit_cells [OF this]] have tP: "t \<in> set (index P)" by simp
  have dP: "distinct (names P)"
    using facts(1) by (simp add: facts(2) distinct_map inj_on_def)
  have "map (\<lambda>n. nan_to_zero (cell_at P n t)) (names P) = map (x \<circ> apartment) tbl"
    unfolding facts(2) by (simp add: unit_cells nan_to_zero_def)
  then have sumP: "value_at (sum_axis1 P) t = Some ?S"
    using sum_axis1_at [OF dP tP] by simp
  from getitem_ok [OF prod_in] obtain ps where ps: "getitem production_column ?F = Inr ps" by blast
  from getitem_ok [OF comp_in] obtain cs where cs: "getitem company_column ?F = Inr cs" by blast
  define calc where "calc = clip_lower 0 (series_op (-) ps (series_op (+) cs (sum_axis1 P)))"
  define df1 where "df1 = setitem pv_over_production calc ?F"
  have ix1: "index df1 = index ?F"
    using t by (auto simp: df1_def index_setitem)
  have n1: "set (names ?F) \<subseteq> set (names df1)" "pv_over_production \<in> set (names df1)"
    by (auto simp: df1_def names_setitem)
  from getitem_ok [OF n1(2)] obtain surplus where su: "getitem pv_over_production df1 = Inr surplus"
    by blast
  from median_in n1(1) have "spot_price_median \<in> set (names df1)" by blast
  from getitem_ok [OF this] obtain price where pr: "getitem spot_price_median df1 = Inr price"
    by blast
  define df2 where "df2 = setitem value_to_grid (series_op (*) surplus price) df1"
  have res: "pv_over_production_try self = Inr df2"
    using ok ps cs su pr
    by (simp add: pv_over_production_try_def and_then_def Let_def tbl' calc_def [symmetric]
        df1_def [symmetric] df2_def [symmetric])
  then have final: "calculate_pv_over_production self = frame_round 3 df2"
    by (simp add: calculate_pv_over_production_def)
  have vcalc: "value_at calc t = Some ?surplus"
    by (simp add: calc_def getitem_Inr(2) [OF ps] getitem_Inr(2) [OF cs] p c sumP lift2_def)
  have c1: "cell_at df1 m t = (if m = pv_over_production then Some ?surplus else cell_at ?F m t)" for m
    using t vcalc ix1 by (auto simp: df1_def cell_at_setitem)
  have sv: "sindex (series_op (*) surplus price) = index df1"
    using getitem_Inr(1) [OF su] getitem_Inr(1) [OF pr] by (simp add: sindex_series_op_same)
  have c2: "cell_at df2 m t = (if m = value_to_grid
              then lift2 (*) (cell_at df1 pv_over_production t) (cell_at df1 spot_price_median t)
              else cell_at df1 m t)" for m
    by (simp add: df2_def cell_at_setitem_aligned [OF sv] getitem_Inr(2) [OF su] getitem_Inr(2) [OF pr])
  have "0 \<le> ?S"
    using x by (intro sum_list_nonneg) auto
  then have le: "?surplus \<le> p" using p0 c0 by simp
  have "round_decimals 3 0 \<le> round_decimals 3 ?surplus"
    by (rule round_decimals_mono) simp
  then have b0: "0 \<le> round_decimals 3 ?surplus" by simp
  have b1: "round_decimals 3 ?surplus \<le> round_decimals 3 p"
    using le by (rule round_decimals_mono)
  show ?thesis
    using d b0 b1 by (simp add: final c2 c1 p)
qed

theorem C7_grid_surplus_witness:
  "resolve_apartments demo_small
     = Inr [\<lparr>apartment = ''U'', allocation = Some 0, profile = ''U_consumption.csv'', amount = None\<rparr>]
   \<and> cell_at (calculate_apartment demo_small) production_column 0 = Some (16 / 10000)
   \<and> cell_at (calculate_apartment demo_small) company_column 0 = Some (4 / 10000)
   \<and> cell_at (calculate_apartment demo_small) ''U consumption [kWh]'' 0 = Some 0
   \<and> cell_at (calculate_apartment demo_small) spot_price_median 0 = Some 4
   \<and> cell_at (calculate_pv_over_production demo_small) pv_over_production 0
        = Some (round_decimals 3 (12 / 10000))
   \<and> cell_at (calculate_pv_over_production demo_small) value_to_grid 0
        = Some (round_decimals 3 (48 / 10000))"
proof -
  let ?row = "\<lparr>apartment = ''U'', allocation = Some 0, profile = ''U_consumption.csv'', amount = None\<rparr>"
  have h: "resolve_apartments demo_small = Inr [?row]" "[?row] \<noteq> []"
    "cell_at (calculate_apartment demo_small) production_column 0 = Some (16 / 10000)"
    "(0 :: real) \<le> 16 / 10000"
    "cell_at (calculate_apartment demo_small) company_column 0 = Some (4 / 10000)"
    "(0 :: real) \<le> 4 / 10000"
    "\<forall>r \<in> set [?row].
       cell_at (calculate_apartment demo_small) (apartment r @ '' consumption [kWh]'') 0
          = Some ((\<lambda>u. 0) (apartment r)) \<and> 0 \<le> (\<lambda>u. 0 :: real) (apartment r)"
    by code_simp+
  have m: "cell_at (calculate_apartment demo_small) spot_price_median 0 = Some 4"
    "cell_at (calculate_apartment demo_small) ''U consumption [kWh]'' 0 = Some 0"
    by code_simp+
  from C7_grid_surplus [OF h] h m show ?thesis
    by (simp add: lift2_def)
qed

section \<open>The pairing of consumption and after-PV columns\<close>











section \<open>The median\<close>

lemma sort_Nil_iff: "sort xs = [] \<longleftrightarrow> xs = []" for xs :: "real list"
  by (metis length_0_conv length_sort)

lemma median_alt:
  "median xs =
     (if xs = [] then None
      else if odd (length xs) then Some (sort xs ! (length xs div 2))
      else Some ((sort xs ! (length xs div 2 - 1) + sort xs ! (length xs div 2)) / 2))"
  by (auto simp: median_def Let_def sort_Nil_iff)

lemma count_below_le:
  fixes ys :: "real list"
  assumes "sorted ys" and "j < length ys" and "m \<le> ys ! j"
  shows "length (filter (\<lambda>x. x < m) ys) \<le> j"
  using assms
proof (induction ys arbitrary: j)
  case Nil
  then show ?case by simp
next
  case (Cons y ys)
  show ?case
  proof (cases j)
    case 0
    with Cons.prems have "\<forall>x \<in> set (y # ys). m \<le> x" by auto
    then have "filter (\<lambda>x. x < m) (y # ys) = []"
      by (auto simp: filter_empty_conv)
    then show ?thesis by simp
  next
    case (Suc j')
    with Cons.prems have "length (filter (\<lambda>x. x < m) ys) \<le> j'"
      by (intro Cons.IH) auto
    with Suc show ?thesis by simp
  qed
qed

lemma count_upto_gt:
  fixes ys :: "real list"
  assumes "sorted ys" and "j < length ys" and "ys ! j \<le> m"
  shows "j < length (filter (\<lambda>x. x \<le> m) ys)"
  using assms
proof (induction ys arbitrary: j)
  case Nil
  then show ?case by simp
next
  case (Cons y ys)
  show ?case
  proof (cases j)
    case 0
    with Cons.prems show ?thesis by simp
  next
    case (Suc j')
    with Cons.prems have "j' < length (filter (\<lambda>x. x \<le> m) ys)"
      by (intro Cons.IH) auto
    moreover have "y \<le> m"
      using Cons.prems Suc by (auto intro: order_trans)
    ultimately show ?thesis using Suc by simp
  qed
qed

lemma sorted_nth_pinned:
  fixes zs :: "real list"
  assumes "sorted zs" and "length (filter (\<lambda>x. x < m) zs) \<le> i"
    and "i < length (filter (\<lambda>x. x \<le> m) zs)"
  shows "zs ! i = m"
proof -
  have i: "i < length zs"
    using assms(3) length_filter_le [of "\<lambda>x. x \<le> m" zs] by (rule order_less_le_trans)
  have "\<not> zs ! i < m"
  proof
    assume lt: "zs ! i < m"
    have "i < length (filter (\<lambda>x. x \<le> zs ! i) zs)"
      using assms(1) i by (intro count_upto_gt) simp_all
    also have "\<dots> \<le> length (filter (\<lambda>x. x < m) zs)"
    proof -
      have "filter (\<lambda>x. x \<le> zs ! i) zs = filter (\<lambda>x. x \<le> zs ! i) (filter (\<lambda>x. x < m) zs)"
        using lt by (auto intro!: filter_cong)
      then show ?thesis by (metis length_filter_le)
    qed
    finally show False using assms(2) by simp
  qed
  moreover have "\<not> m < zs ! i"
  proof
    assume gt: "m < zs ! i"
    have "length (filter (\<lambda>x. x \<le> m) zs) \<le> length (filter (\<lambda>x. x < zs ! i) zs)"
    proof -
      have "filter (\<lambda>x. x \<le> m) zs = filter (\<lambda>x. x \<le> m) (filter (\<lambda>x. x < zs ! i) zs)"
        using gt by (auto intro!: filter_cong)
      then show ?thesis by (metis length_filter_le)
    qed
    also have "\<dots> \<le> i"
      using assms(1) i by (intro count_below_le) simp_all
    finally show False using assms(3) by simp
  qed
  ultimately show ?thesis by simp
qed

lemma length_filter_sort: "length (filter P (sort xs)) = length (filter P xs)"
  by (simp add: filter_sort)

lemma median_extend:
  assumes "median xs = Some m"
  shows "median (xs @ [m]) = Some m"
proof -
  define ys where "ys = sort xs"
  define zs where "zs = sort (xs @ [m])"
  define n where "n = length xs"
  have sy: "sorted ys" and sz: "sorted zs" by (simp_all add: ys_def zs_def)
  have ly: "length ys = n" and lz: "length zs = n + 1" by (simp_all add: ys_def zs_def n_def)
  have n0: "n \<noteq> 0"
    using assms by (auto simp: median_alt n_def split: if_splits)
  have below: "length (filter (\<lambda>x. x < m) zs) = length (filter (\<lambda>x. x < m) ys)"
    by (simp add: zs_def ys_def length_filter_sort)
  have upto: "length (filter (\<lambda>x. x \<le> m) zs) = length (filter (\<lambda>x. x \<le> m) ys) + 1"
    by (simp add: zs_def ys_def length_filter_sort)
  show ?thesis
  proof (cases "odd n")
    case True
    then have m: "m = ys ! (n div 2)"
      using assms n0 by (auto simp: median_alt ys_def n_def split: if_splits)
    have j: "n div 2 < length ys" using n0 ly by simp
    have b: "length (filter (\<lambda>x. x < m) zs) \<le> n div 2"
      unfolding below using sy j by (intro count_below_le) (simp_all add: m)
    have u: "n div 2 + 1 < length (filter (\<lambda>x. x \<le> m) zs)"
      unfolding upto using count_upto_gt [OF sy j, of m] by (simp add: m)
    have "zs ! (n div 2) = m"
      using sz b u by (intro sorted_nth_pinned) simp_all
    moreover have "zs ! (n div 2 + 1) = m"
      using sz b u by (intro sorted_nth_pinned) simp_all
    moreover have "(n + 1) div 2 = n div 2 + 1" using True by presburger
    ultimately show ?thesis
      using True lz by (simp add: median_alt zs_def)
  next
    case False
    then have m: "m = (ys ! (n div 2 - 1) + ys ! (n div 2)) / 2"
      using assms n0 by (auto simp: median_alt ys_def n_def split: if_splits)
    have n2: "2 \<le> n" using False n0 by presburger
    have j: "n div 2 < length ys" "n div 2 - 1 < length ys" using n2 ly by simp_all
    have "ys ! (n div 2 - 1) \<le> ys ! (n div 2)"
      using sy j by (intro sorted_nth_mono) simp_all
    then have lo: "ys ! (n div 2 - 1) \<le> m" and hi: "m \<le> ys ! (n div 2)"
      by (simp_all add: m)
    have b: "length (filter (\<lambda>x. x < m) zs) \<le> n div 2"
      unfolding below using sy j(1) hi by (rule count_below_le)
    have "n div 2 - 1 < length (filter (\<lambda>x. x \<le> m) ys)"
      using sy j(2) lo by (rule count_upto_gt)
    then have u: "n div 2 < length (filter (\<lambda>x. x \<le> m) zs)"
      unfolding upto by simp
    have "zs ! (n div 2) = m"
      using sz b u by (rule sorted_nth_pinned)
    moreover have "(n + 1) div 2 = n div 2" using False by presburger
    ultimately show ?thesis
      using False lz by (simp add: median_alt zs_def)
  qed
qed

lemma count_from_ge:
  fixes ys :: "real list"
  assumes "sorted ys" and "j < length ys" and "m \<le> ys ! j"
  shows "length ys - j \<le> length (filter (\<lambda>x. m \<le> x) ys)"
proof -
  have "length (filter (\<lambda>x. m \<le> x) ys) + length (filter (\<lambda>x. \<not> m \<le> x) ys) = length ys"
    by (rule sum_length_filter_compl)
  moreover have "filter (\<lambda>x. \<not> m \<le> x) ys = filter (\<lambda>x. x < m) ys"
    by (rule filter_cong) auto
  moreover have "length (filter (\<lambda>x. x < m) ys) \<le> j"
    using assms by (rule count_below_le)
  ultimately show ?thesis by simp
qed

lemma median_is_middle:
  assumes "median xs = Some m"
  shows "length xs \<le> 2 * length (filter (\<lambda>x. x \<le> m) xs)"
    and "length xs \<le> 2 * length (filter (\<lambda>x. m \<le> x) xs)"
proof -
  define ys where "ys = sort xs"
  define n where "n = length xs"
  have sy: "sorted ys" and ly: "length ys = n" by (simp_all add: ys_def n_def)
  have n0: "n \<noteq> 0"
    using assms by (auto simp: median_alt n_def split: if_splits)
  have le: "length (filter (\<lambda>x. x \<le> m) xs) = length (filter (\<lambda>x. x \<le> m) ys)"
    and ge: "length (filter (\<lambda>x. m \<le> x) xs) = length (filter (\<lambda>x. m \<le> x) ys)"
    by (simp_all add: ys_def length_filter_sort)
  have j: "n div 2 < length ys" using n0 ly by simp
  have "n \<le> 2 * length (filter (\<lambda>x. x \<le> m) ys) \<and> n \<le> 2 * length (filter (\<lambda>x. m \<le> x) ys)"
  proof (cases "odd n")
    case True
    then have m: "m = ys ! (n div 2)"
      using assms n0 by (auto simp: median_alt ys_def n_def split: if_splits)
    have "n div 2 < length (filter (\<lambda>x. x \<le> m) ys)"
      using sy j by (intro count_upto_gt) (simp_all add: m)
    moreover have "length ys - n div 2 \<le> length (filter (\<lambda>x. m \<le> x) ys)"
      using sy j by (intro count_from_ge) (simp_all add: m)
    ultimately show ?thesis using True ly by presburger
  next
    case False
    then have m: "m = (ys ! (n div 2 - 1) + ys ! (n div 2)) / 2"
      using assms n0 by (auto simp: median_alt ys_def n_def split: if_splits)
    have n2: "2 \<le> n" using False n0 by presburger
    have j': "n div 2 - 1 < length ys" using n2 ly by simp
    have "ys ! (n div 2 - 1) \<le> ys ! (n div 2)"
      using sy j by (intro sorted_nth_mono) simp_all
    then have lo: "ys ! (n div 2 - 1) \<le> m" and hi: "m \<le> ys ! (n div 2)"
      by (simp_all add: m)
    have "n div 2 - 1 < length (filter (\<lambda>x. x \<le> m) ys)"
      using sy j' lo by (rule count_upto_gt)
    moreover have "length ys - n div 2 \<le> length (filter (\<lambda>x. m \<le> x) ys)"
      using sy j hi by (rule count_from_ge)
    ultimately show ?thesis using False ly n2 by presburger
  qed
  then show "length xs \<le> 2 * length (filter (\<lambda>x. x \<le> m) xs)"
    and "length xs \<le> 2 * length (filter (\<lambda>x. m \<le> x) xs)"
    by (simp_all add: le ge n_def)
qed

end
